theory Spec2Isabelle
  imports Main "HOL-Library.Word"
begin

unbundle bit_operations_syntax

section \<open>Characters, C strings and the C library\<close>

text \<open>
  A C string is modelled by the list of its characters in front of the terminating NUL.
  A fixed \<^verbatim>\<open>char\<close> array is a list of that length; \<open>cstr\<close> reads it as a C string.
\<close>

definition NUL :: char where
  "NUL = CHR 0x00"

definition CR :: char where
  "CR = CHR 0x0D"

definition LF :: char where
  "LF = CHR 0x0A"

definition cstr :: "char list \<Rightarrow> string" where
  "cstr buf = takeWhile (\<lambda>c. c \<noteq> NUL) buf"

text \<open>\<^verbatim>\<open>isdigit\<close> and \<^verbatim>\<open>isspace\<close> of \<^verbatim>\<open>ctype.h\<close> in the C locale.\<close>

definition isdigit :: "char \<Rightarrow> bool" where
  "isdigit c = (48 \<le> (of_char c :: nat) \<and> (of_char c :: nat) \<le> 57)"

definition isspace :: "char \<Rightarrow> bool" where
  "isspace c = ((of_char c :: nat) = 32 \<or> (9 \<le> (of_char c :: nat) \<and> (of_char c :: nat) \<le> 13))"

text \<open>The C expression \<^verbatim>\<open>c - '0'\<close>.\<close>

definition digit :: "char \<Rightarrow> int" where
  "digit c = int (of_char c) - 48"

text \<open>
  \<^verbatim>\<open>atol\<close> of \<^verbatim>\<open>stdlib.h\<close>: white space is skipped, one sign is accepted, and the
  decimal digits that follow are accumulated; the first other character ends the number.
  The C standard leaves the result undefined when it does not fit \<^verbatim>\<open>long\<close>; the model
  returns the mathematical value, and every cast of the source is written at the call.
\<close>

fun strtol_digits :: "int \<Rightarrow> string \<Rightarrow> int" where
  "strtol_digits acc [] = acc"
| "strtol_digits acc (c # cs) =
     (if isdigit c then strtol_digits (10 * acc + digit c) cs else acc)"

definition atol :: "string \<Rightarrow> int" where
  "atol s = (case dropWhile isspace s of
               [] \<Rightarrow> 0
             | c # cs \<Rightarrow> if c = CHR ''-'' then - strtol_digits 0 cs
                        else if c = CHR ''+'' then strtol_digits 0 cs
                        else strtol_digits 0 (c # cs))"

text \<open>
  \<^verbatim>\<open>strcmp\<close> of \<^verbatim>\<open>string.h\<close>: the characters are compared as \<^verbatim>\<open>unsigned char\<close>. The
  C standard fixes the sign of the result only; the model returns \<open>-1\<close>, \<open>0\<close> or \<open>1\<close>.
\<close>

fun strcmp :: "string \<Rightarrow> string \<Rightarrow> int" where
  "strcmp [] [] = 0"
| "strcmp [] (b # bs) = - 1"
| "strcmp (a # as) [] = 1"
| "strcmp (a # as) (b # bs) =
     (if a = b then strcmp as bs
      else if (of_char a :: nat) < of_char b then - 1 else 1)"

section \<open>Numeric decoders\<close>

text \<open>
  \<^verbatim>\<open>TinyGPSPlus::fromHex\<close>. The result enters the checksum modulo 256 only, where a signed
  and an unsigned \<^verbatim>\<open>char\<close> give the same byte.
\<close>

definition fromHex :: "char \<Rightarrow> int" where
  "fromHex a =
     (if (65::nat) \<le> of_char a \<and> (of_char a :: nat) \<le> 70 then int (of_char a) - 65 + 10
      else if (97::nat) \<le> of_char a \<and> (of_char a :: nat) \<le> 102 then int (of_char a) - 97 + 10
      else int (of_char a) - 48)"

text \<open>
  \<^verbatim>\<open>TinyGPSPlus::parseDecimal\<close>. The result is an \<^verbatim>\<open>int32_t\<close>, a 32-bit word read with
  \<open>sint\<close>; its arithmetic wraps around.
\<close>

definition parseDecimal :: "string \<Rightarrow> 32 word" where
  "parseDecimal term0 =
     (let negative = (case term0 of [] \<Rightarrow> False | c # _ \<Rightarrow> c = CHR ''-'');
          term1 = (if negative then tl term0 else term0);
          ret = 100 * (word_of_int (atol term1) :: 32 word);
          term2 = dropWhile isdigit term1;
          ret2 = (case term2 of
                    c0 # c1 # rest \<Rightarrow>
                      if c0 = CHR ''.'' \<and> isdigit c1
                      then (let r = ret + 10 * word_of_int (digit c1)
                            in case rest of
                                 [] \<Rightarrow> r
                               | c2 # _ \<Rightarrow> if isdigit c2 then r + word_of_int (digit c2) else r)
                      else ret
                  | _ \<Rightarrow> ret)
      in if negative then - ret2 else ret2)"

record RawDegrees =
  deg :: "16 word"
  billionths :: "32 word"
  negative :: bool

text \<open>
  The loop over the fractional digits in \<^verbatim>\<open>TinyGPSPlus::parseDegrees\<close>:
  \<^verbatim>\<open>while (isdigit(*++term)) { multiplier /= 10; tenMillionthsOfMinutes += (*term - '0') * multiplier; }\<close>
\<close>

fun fractionDigits :: "32 word \<Rightarrow> 32 word \<Rightarrow> string \<Rightarrow> 32 word" where
  "fractionDigits multiplier tenMillionthsOfMinutes [] = tenMillionthsOfMinutes"
| "fractionDigits multiplier tenMillionthsOfMinutes (c # cs) =
     (if isdigit c
      then fractionDigits (multiplier div 10)
             (tenMillionthsOfMinutes + word_of_int (digit c) * (multiplier div 10)) cs
      else tenMillionthsOfMinutes)"

definition parseDegrees :: "string \<Rightarrow> RawDegrees" where
  "parseDegrees term0 =
     (let leftOfDecimal = (word_of_int (atol term0) :: 32 word);
          minutes = (ucast (leftOfDecimal mod 100) :: 16 word);
          multiplier = (10000000 :: 32 word);
          tenMillionthsOfMinutes = (ucast minutes :: 32 word) * multiplier;
          term1 = dropWhile isdigit term0;
          tenMillionthsOfMinutes' =
            (case term1 of
               [] \<Rightarrow> tenMillionthsOfMinutes
             | c # cs \<Rightarrow> if c = CHR ''.''
                        then fractionDigits multiplier tenMillionthsOfMinutes cs
                        else tenMillionthsOfMinutes)
      in \<lparr> deg = ucast (leftOfDecimal div 100),
           billionths = (5 * tenMillionthsOfMinutes' + 1) div 3,
           negative = False \<rparr>)"

section \<open>Field containers\<close>

text \<open>
  Each container class keeps a committed value, a staged value, the flags \<^verbatim>\<open>valid\<close> and
  \<^verbatim>\<open>updated\<close>, and the time of the last commit. Record fields are global names, so the
  fields of each class carry a prefix. \<^verbatim>\<open>millis()\<close> belongs to the Arduino runtime: every
  \<open>commit\<close> takes the clock reading \<open>now\<close> as an argument.
\<close>

record TinyGPSLocation =
  loc_valid :: bool
  loc_updated :: bool
  rawLatData :: RawDegrees
  rawLngData :: RawDegrees
  rawNewLatData :: RawDegrees
  rawNewLngData :: RawDegrees
  loc_lastCommitTime :: "32 word"

record TinyGPSDate =
  date_valid :: bool
  date_updated :: bool
  date_date :: "32 word"
  date_newDate :: "32 word"
  date_lastCommitTime :: "32 word"

record TinyGPSTime =
  time_valid :: bool
  time_updated :: bool
  time_time :: "32 word"
  time_newTime :: "32 word"
  time_lastCommitTime :: "32 word"

text \<open>\<^verbatim>\<open>TinyGPSDecimal\<close>; speed, course, altitude and HDOP derive from it without adding state.\<close>

record TinyGPSDecimal =
  dec_valid :: bool
  dec_updated :: bool
  dec_lastCommitTime :: "32 word"
  dec_val :: "32 word"
  dec_newval :: "32 word"

record TinyGPSInteger =
  int_valid :: bool
  int_updated :: bool
  int_lastCommitTime :: "32 word"
  int_val :: "32 word"
  int_newval :: "32 word"

text \<open>
  \<^verbatim>\<open>TinyGPSCustom\<close>. The two 16-byte buffers are modelled by the C strings they hold. The
  \<^verbatim>\<open>next\<close> pointer is the position in the registry list.
\<close>

record TinyGPSCustom =
  stagingBuffer :: string
  buffer :: string
  cust_lastCommitTime :: "32 word"
  cust_valid :: bool
  cust_updated :: bool
  sentenceName :: string
  termNumber :: int

definition RawDegrees_new :: RawDegrees where
  "RawDegrees_new = \<lparr> deg = 0, billionths = 0, negative = False \<rparr>"

definition TinyGPSLocation_new :: TinyGPSLocation where
  "TinyGPSLocation_new =
     \<lparr> loc_valid = False, loc_updated = False, rawLatData = RawDegrees_new,
       rawLngData = RawDegrees_new, rawNewLatData = RawDegrees_new,
       rawNewLngData = RawDegrees_new, loc_lastCommitTime = 0 \<rparr>"

definition TinyGPSDate_new :: TinyGPSDate where
  "TinyGPSDate_new =
     \<lparr> date_valid = False, date_updated = False, date_date = 0, date_newDate = 0,
       date_lastCommitTime = 0 \<rparr>"

definition TinyGPSTime_new :: TinyGPSTime where
  "TinyGPSTime_new =
     \<lparr> time_valid = False, time_updated = False, time_time = 0, time_newTime = 0,
       time_lastCommitTime = 0 \<rparr>"

definition TinyGPSDecimal_new :: TinyGPSDecimal where
  "TinyGPSDecimal_new =
     \<lparr> dec_valid = False, dec_updated = False, dec_lastCommitTime = 0, dec_val = 0,
       dec_newval = 0 \<rparr>"

definition TinyGPSInteger_new :: TinyGPSInteger where
  "TinyGPSInteger_new =
     \<lparr> int_valid = False, int_updated = False, int_lastCommitTime = 0, int_val = 0,
       int_newval = 0 \<rparr>"

definition TinyGPSLocation_commit :: "32 word \<Rightarrow> TinyGPSLocation \<Rightarrow> TinyGPSLocation" where
  "TinyGPSLocation_commit now l =
     l\<lparr> rawLatData := rawNewLatData l, rawLngData := rawNewLngData l,
        loc_lastCommitTime := now, loc_valid := True, loc_updated := True \<rparr>"

definition setLatitude :: "string \<Rightarrow> TinyGPSLocation \<Rightarrow> TinyGPSLocation" where
  "setLatitude text l = l\<lparr> rawNewLatData := parseDegrees text \<rparr>"

definition setLongitude :: "string \<Rightarrow> TinyGPSLocation \<Rightarrow> TinyGPSLocation" where
  "setLongitude text l = l\<lparr> rawNewLngData := parseDegrees text \<rparr>"

definition setLatitudeNegative :: "bool \<Rightarrow> TinyGPSLocation \<Rightarrow> TinyGPSLocation" where
  "setLatitudeNegative b l = l\<lparr> rawNewLatData := (rawNewLatData l)\<lparr> negative := b \<rparr> \<rparr>"

definition setLongitudeNegative :: "bool \<Rightarrow> TinyGPSLocation \<Rightarrow> TinyGPSLocation" where
  "setLongitudeNegative b l = l\<lparr> rawNewLngData := (rawNewLngData l)\<lparr> negative := b \<rparr> \<rparr>"

definition TinyGPSDate_commit :: "32 word \<Rightarrow> TinyGPSDate \<Rightarrow> TinyGPSDate" where
  "TinyGPSDate_commit now d =
     d\<lparr> date_date := date_newDate d, date_lastCommitTime := now, date_valid := True,
        date_updated := True \<rparr>"

definition setDate :: "string \<Rightarrow> TinyGPSDate \<Rightarrow> TinyGPSDate" where
  "setDate text d = d\<lparr> date_newDate := word_of_int (atol text) \<rparr>"

definition TinyGPSTime_commit :: "32 word \<Rightarrow> TinyGPSTime \<Rightarrow> TinyGPSTime" where
  "TinyGPSTime_commit now t =
     t\<lparr> time_time := time_newTime t, time_lastCommitTime := now, time_valid := True,
        time_updated := True \<rparr>"

definition setTime :: "string \<Rightarrow> TinyGPSTime \<Rightarrow> TinyGPSTime" where
  "setTime text t = t\<lparr> time_newTime := parseDecimal text \<rparr>"

definition TinyGPSDecimal_commit :: "32 word \<Rightarrow> TinyGPSDecimal \<Rightarrow> TinyGPSDecimal" where
  "TinyGPSDecimal_commit now d =
     d\<lparr> dec_val := dec_newval d, dec_lastCommitTime := now, dec_valid := True,
        dec_updated := True \<rparr>"

definition TinyGPSDecimal_set :: "string \<Rightarrow> TinyGPSDecimal \<Rightarrow> TinyGPSDecimal" where
  "TinyGPSDecimal_set text d = d\<lparr> dec_newval := parseDecimal text \<rparr>"

definition TinyGPSInteger_commit :: "32 word \<Rightarrow> TinyGPSInteger \<Rightarrow> TinyGPSInteger" where
  "TinyGPSInteger_commit now i =
     i\<lparr> int_val := int_newval i, int_lastCommitTime := now, int_valid := True,
        int_updated := True \<rparr>"

definition TinyGPSInteger_set :: "string \<Rightarrow> TinyGPSInteger \<Rightarrow> TinyGPSInteger" where
  "TinyGPSInteger_set text i = i\<lparr> int_newval := word_of_int (atol text) \<rparr>"

text \<open>
  \<^verbatim>\<open>TinyGPSCustom::commit\<close> copies the staged C string with \<^verbatim>\<open>strcpy\<close>;
  \<^verbatim>\<open>TinyGPSCustom::set\<close> stages with \<^verbatim>\<open>strncpy\<close> into the 16 bytes of the staging buffer.
\<close>

definition TinyGPSCustom_commit :: "32 word \<Rightarrow> TinyGPSCustom \<Rightarrow> TinyGPSCustom" where
  "TinyGPSCustom_commit now p =
     p\<lparr> buffer := stagingBuffer p, cust_lastCommitTime := now, cust_valid := True,
        cust_updated := True \<rparr>"

definition TinyGPSCustom_set :: "string \<Rightarrow> TinyGPSCustom \<Rightarrow> TinyGPSCustom" where
  "TinyGPSCustom_set text p = p\<lparr> stagingBuffer := take 16 text \<rparr>"

section \<open>The parser\<close>

datatype sentence_type = GPS_SENTENCE_GPGGA | GPS_SENTENCE_GPRMC | GPS_SENTENCE_OTHER

text \<open>The values of the anonymous \<^verbatim>\<open>enum\<close>, in its order of declaration.\<close>

fun sentence_code :: "sentence_type \<Rightarrow> nat" where
  "sentence_code GPS_SENTENCE_GPGGA = 0"
| "sentence_code GPS_SENTENCE_GPRMC = 1"
| "sentence_code GPS_SENTENCE_OTHER = 2"

text \<open>
  The state of a \<^verbatim>\<open>TinyGPSPlus\<close> object. \<open>term_buf\<close> is the array \<^verbatim>\<open>char term[15]\<close>.
  \<open>curTermOffset\<close> is a \<^verbatim>\<open>uint8_t\<close> that the code keeps below 15, so it is a natural
  number; \<open>curTermNumber\<close> wraps around and is a byte. The registry \<open>customElts\<close> is the
  linked list of the registered \<^verbatim>\<open>TinyGPSCustom\<close> objects in list order, and the pointer
  \<open>customCandidates\<close> is the position of the entry it points to, \<open>None\<close> for \<^verbatim>\<open>NULL\<close>.
\<close>

record TinyGPSPlus =
  location :: TinyGPSLocation
  date :: TinyGPSDate
  time :: TinyGPSTime
  speed :: TinyGPSDecimal
  course :: TinyGPSDecimal
  altitude :: TinyGPSDecimal
  satellites :: TinyGPSInteger
  hdop :: TinyGPSDecimal
  parity :: "8 word"
  isChecksumTerm :: bool
  term_buf :: "char list"
  curSentenceType :: sentence_type
  curTermNumber :: "8 word"
  curTermOffset :: nat
  sentenceHasFix :: bool
  customElts :: "TinyGPSCustom list"
  customCandidates :: "nat option"
  encodedCharCount :: "32 word"
  sentencesWithFixCount :: "32 word"
  failedChecksumCount :: "32 word"
  passedChecksumCount :: "32 word"

text \<open>
  The constructor. It writes \<^verbatim>\<open>term[0]\<close> only; \<open>junk\<close> stands for the 14 bytes it leaves
  uninitialised.
\<close>

definition TinyGPSPlus_new :: "char list \<Rightarrow> TinyGPSPlus" where
  "TinyGPSPlus_new junk =
     \<lparr> location = TinyGPSLocation_new, date = TinyGPSDate_new, time = TinyGPSTime_new,
       speed = TinyGPSDecimal_new, course = TinyGPSDecimal_new,
       altitude = TinyGPSDecimal_new, satellites = TinyGPSInteger_new,
       hdop = TinyGPSDecimal_new, parity = 0, isChecksumTerm = False,
       term_buf = NUL # take 14 (junk @ replicate 14 NUL),
       curSentenceType = GPS_SENTENCE_OTHER, curTermNumber = 0, curTermOffset = 0,
       sentenceHasFix = False, customElts = [], customCandidates = None,
       encodedCharCount = 0, sentencesWithFixCount = 0, failedChecksumCount = 0,
       passedChecksumCount = 0 \<rparr>"

text \<open>\<^verbatim>\<open>#define COMBINE(sentence_type, term_number) (((unsigned)(sentence_type) << 5) | term_number)\<close>\<close>

definition COMBINE :: "nat \<Rightarrow> nat \<Rightarrow> nat" where
  "COMBINE ty term_number = push_bit 5 ty OR term_number"

text \<open>
  The value of a \<^verbatim>\<open>char\<close> in a comparison. \<^verbatim>\<open>char\<close> is taken as signed, as avr-gcc and
  gcc on x86 have it; only the test \<^verbatim>\<open>term[0] > '0'\<close> depends on the choice.
\<close>

definition char_value :: "char \<Rightarrow> int" where
  "char_value c = sint (of_char c :: 8 word)"

text \<open>
  The three traversals of the registry in \<^verbatim>\<open>endOfTermHandler\<close>, each started at the entry that
  \<open>customCandidates\<close> points to: commit every entry of the run, stage the text in the
  entries of the run registered for the current term, and the scan for the first candidate.
\<close>

fun commitCandidates :: "32 word \<Rightarrow> string \<Rightarrow> TinyGPSCustom list \<Rightarrow> TinyGPSCustom list" where
  "commitCandidates now name [] = []"
| "commitCandidates now name (p # ps) =
     (if strcmp (sentenceName p) name = 0
      then TinyGPSCustom_commit now p # commitCandidates now name ps
      else p # ps)"

fun setCandidates :: "string \<Rightarrow> int \<Rightarrow> string \<Rightarrow> TinyGPSCustom list \<Rightarrow> TinyGPSCustom list" where
  "setCandidates name n text [] = []"
| "setCandidates name n text (p # ps) =
     (if strcmp (sentenceName p) name = 0 \<and> termNumber p \<le> n
      then (if termNumber p = n then TinyGPSCustom_set text p else p)
             # setCandidates name n text ps
      else p # ps)"

fun findCandidates :: "string \<Rightarrow> nat \<Rightarrow> TinyGPSCustom list \<Rightarrow> nat option" where
  "findCandidates text i [] = None"
| "findCandidates text i (p # ps) =
     (if strcmp (sentenceName p) text < 0 then findCandidates text (Suc i) ps
      else if strcmp (sentenceName p) text > 0 then None
      else Some i)"

text \<open>Apply a loop to the part of the registry that starts at the candidate pointer.\<close>

definition fromCandidates ::
  "(string \<Rightarrow> TinyGPSCustom list \<Rightarrow> TinyGPSCustom list) \<Rightarrow> TinyGPSPlus \<Rightarrow> TinyGPSCustom list" where
  "fromCandidates loop s =
     (case customCandidates s of
        None \<Rightarrow> customElts s
      | Some k \<Rightarrow>
          (case drop k (customElts s) of
             [] \<Rightarrow> customElts s
           | p # ps \<Rightarrow> take k (customElts s) @ loop (sentenceName p) (p # ps)))"

text \<open>The \<^verbatim>\<open>switch\<close> on \<^verbatim>\<open>COMBINE(curSentenceType, curTermNumber)\<close>, case by case.\<close>

definition dispatchTerm :: "TinyGPSPlus \<Rightarrow> TinyGPSPlus" where
  "dispatchTerm s =
     (let text = cstr (term_buf s);
          k = COMBINE (sentence_code (curSentenceType s)) (unat (curTermNumber s));
          RMC = sentence_code GPS_SENTENCE_GPRMC;
          GGA = sentence_code GPS_SENTENCE_GPGGA
      in if k = COMBINE RMC 1 \<or> k = COMBINE GGA 1 then s\<lparr> time := setTime text (time s) \<rparr>
         else if k = COMBINE RMC 2 then s\<lparr> sentenceHasFix := (term_buf s ! 0 = CHR ''A'') \<rparr>
         else if k = COMBINE RMC 3 \<or> k = COMBINE GGA 2
           then s\<lparr> location := setLatitude text (location s) \<rparr>
         else if k = COMBINE RMC 4 \<or> k = COMBINE GGA 3
           then s\<lparr> location := setLatitudeNegative (term_buf s ! 0 = CHR ''S'') (location s) \<rparr>
         else if k = COMBINE RMC 5 \<or> k = COMBINE GGA 4
           then s\<lparr> location := setLongitude text (location s) \<rparr>
         else if k = COMBINE RMC 6 \<or> k = COMBINE GGA 5
           then s\<lparr> location := setLongitudeNegative (term_buf s ! 0 = CHR ''W'') (location s) \<rparr>
         else if k = COMBINE RMC 7 then s\<lparr> speed := TinyGPSDecimal_set text (speed s) \<rparr>
         else if k = COMBINE RMC 8 then s\<lparr> course := TinyGPSDecimal_set text (course s) \<rparr>
         else if k = COMBINE RMC 9 then s\<lparr> date := setDate text (date s) \<rparr>
         else if k = COMBINE GGA 6
           then s\<lparr> sentenceHasFix := (char_value (term_buf s ! 0) > char_value CHR ''0'') \<rparr>
         else if k = COMBINE GGA 7
           then s\<lparr> satellites := TinyGPSInteger_set text (satellites s) \<rparr>
         else if k = COMBINE GGA 8 then s\<lparr> hdop := TinyGPSDecimal_set text (hdop s) \<rparr>
         else if k = COMBINE GGA 9 then s\<lparr> altitude := TinyGPSDecimal_set text (altitude s) \<rparr>
         else s)"

text \<open>The commits of a sentence that passed its checksum, by sentence type.\<close>

definition commitSentence :: "32 word \<Rightarrow> TinyGPSPlus \<Rightarrow> TinyGPSPlus" where
  "commitSentence now s =
     (case curSentenceType s of
        GPS_SENTENCE_GPRMC \<Rightarrow>
          (let s1 = s\<lparr> date := TinyGPSDate_commit now (date s),
                       time := TinyGPSTime_commit now (time s) \<rparr>
           in if sentenceHasFix s1
              then s1\<lparr> location := TinyGPSLocation_commit now (location s1),
                       speed := TinyGPSDecimal_commit now (speed s1),
                       course := TinyGPSDecimal_commit now (course s1) \<rparr>
              else s1)
      | GPS_SENTENCE_GPGGA \<Rightarrow>
          (let s1 = s\<lparr> time := TinyGPSTime_commit now (time s) \<rparr>;
               s2 = (if sentenceHasFix s1
                     then s1\<lparr> location := TinyGPSLocation_commit now (location s1),
                              altitude := TinyGPSDecimal_commit now (altitude s1) \<rparr>
                     else s1)
           in s2\<lparr> satellites := TinyGPSInteger_commit now (satellites s2),
                  hdop := TinyGPSDecimal_commit now (hdop s2) \<rparr>)
      | GPS_SENTENCE_OTHER \<Rightarrow> s)"

text \<open>The checksum byte \<^verbatim>\<open>16 * fromHex(term[0]) + fromHex(term[1])\<close>.\<close>

definition checksumOf :: "char list \<Rightarrow> 8 word" where
  "checksumOf buf = word_of_int (16 * fromHex (buf ! 0) + fromHex (buf ! 1))"

text \<open>
  \<^verbatim>\<open>TinyGPSPlus::endOfTermHandler\<close>, on a state whose term buffer the caller has terminated.
\<close>

definition endOfTermHandler :: "32 word \<Rightarrow> TinyGPSPlus \<Rightarrow> bool \<times> TinyGPSPlus" where
  "endOfTermHandler now s =
     (if isChecksumTerm s then
        (if checksumOf (term_buf s) = parity s then
           (let s1 = s\<lparr> passedChecksumCount := passedChecksumCount s + 1 \<rparr>;
                s2 = (if sentenceHasFix s1
                      then s1\<lparr> sentencesWithFixCount := sentencesWithFixCount s1 + 1 \<rparr>
                      else s1);
                s3 = commitSentence now s2
            in (True, s3\<lparr> customElts := fromCandidates (commitCandidates now) s3 \<rparr>))
         else (False, s\<lparr> failedChecksumCount := failedChecksumCount s + 1 \<rparr>))
      else if curTermNumber s = 0 then
        (let text = cstr (term_buf s);
             ty = (if strcmp text ''GPRMC'' = 0 \<or> strcmp text ''GNRMC'' = 0 then GPS_SENTENCE_GPRMC
                   else if strcmp text ''GPGGA'' = 0 \<or> strcmp text ''GNGGA'' = 0
                     then GPS_SENTENCE_GPGGA
                   else GPS_SENTENCE_OTHER)
         in (False, s\<lparr> curSentenceType := ty,
                        customCandidates := findCandidates text 0 (customElts s) \<rparr>))
      else
        (let s1 = (if curSentenceType s \<noteq> GPS_SENTENCE_OTHER \<and> term_buf s ! 0 \<noteq> NUL
                   then dispatchTerm s else s)
         in (False, s1\<lparr> customElts :=
                           fromCandidates
                             (\<lambda>name. setCandidates name (uint (curTermNumber s1)) (cstr (term_buf s1)))
                             s1 \<rparr>)))"

text \<open>
  \<^verbatim>\<open>TinyGPSPlus::encode\<close>. A term terminator first folds a \<open>,\<close> into the parity, then
  terminates the term buffer and calls \<open>endOfTermHandler\<close>.
\<close>

definition isTerminator :: "char \<Rightarrow> bool" where
  "isTerminator c = (c = CHR '','' \<or> c = CR \<or> c = LF \<or> c = CHR ''*'')"

definition foldSeparator :: "char \<Rightarrow> TinyGPSPlus \<Rightarrow> TinyGPSPlus" where
  "foldSeparator c s = (if c = CHR '','' then s\<lparr> parity := parity s XOR of_char c \<rparr> else s)"

definition terminateTerm :: "TinyGPSPlus \<Rightarrow> TinyGPSPlus" where
  "terminateTerm s = s\<lparr> term_buf := (term_buf s)[curTermOffset s := NUL] \<rparr>"

definition encode :: "32 word \<Rightarrow> char \<Rightarrow> TinyGPSPlus \<Rightarrow> bool \<times> TinyGPSPlus" where
  "encode now c s0 =
     (let s = s0\<lparr> encodedCharCount := encodedCharCount s0 + 1 \<rparr>
      in if isTerminator c then
           (let s1 = foldSeparator c s;
                (isValidSentence, s2) =
                  (if curTermOffset s1 < 15
                   then endOfTermHandler now (terminateTerm s1)
                   else (False, s1))
            in (isValidSentence,
                s2\<lparr> curTermNumber := curTermNumber s2 + 1, curTermOffset := 0,
                    isChecksumTerm := (c = CHR ''*'') \<rparr>))
         else if c = CHR ''$'' then
           (False, s\<lparr> curTermNumber := 0, curTermOffset := 0, parity := 0,
                      curSentenceType := GPS_SENTENCE_OTHER, isChecksumTerm := False,
                      sentenceHasFix := False \<rparr>)
         else
           (let s1 = (if curTermOffset s < 14
                      then s\<lparr> term_buf := (term_buf s)[curTermOffset s := c],
                              curTermOffset := curTermOffset s + 1 \<rparr>
                      else s);
                s2 = (if \<not> isChecksumTerm s1 then s1\<lparr> parity := parity s1 XOR of_char c \<rparr>
                      else s1)
            in (False, s2)))"

text \<open>
  The state in which a term terminator \<open>c\<close> fed to \<open>s\<close> calls \<open>endOfTermHandler\<close>: its
  parity is the accumulator the checksum field is compared with.
\<close>

definition beforeHandler :: "char \<Rightarrow> TinyGPSPlus \<Rightarrow> TinyGPSPlus" where
  "beforeHandler c s =
     terminateTerm (foldSeparator c (s\<lparr> encodedCharCount := encodedCharCount s + 1 \<rparr>))"

text \<open>\<^verbatim>\<open>operator<<\<close> applied to each character of a text in turn.\<close>

fun feed :: "32 word \<Rightarrow> string \<Rightarrow> TinyGPSPlus \<Rightarrow> TinyGPSPlus" where
  "feed now [] s = s"
| "feed now (c # cs) s = feed now cs (snd (encode now c s))"

text \<open>\<^verbatim>\<open>TinyGPSPlus::isUpdated\<close>.\<close>

definition isUpdated :: "TinyGPSPlus \<Rightarrow> bool" where
  "isUpdated s =
     (loc_updated (location s) \<or> date_updated (date s) \<or> time_updated (time s)
      \<or> dec_updated (speed s) \<or> dec_updated (course s) \<or> dec_updated (altitude s)
      \<or> int_updated (satellites s) \<or> dec_updated (hdop s))"

text \<open>\<^verbatim>\<open>isUpdated()\<close> of each native container, in the order of that disjunction.\<close>

definition updatedFlags :: "TinyGPSPlus \<Rightarrow> bool list" where
  "updatedFlags s =
     [loc_updated (location s), date_updated (date s), time_updated (time s),
      dec_updated (speed s), dec_updated (course s), dec_updated (altitude s),
      int_updated (satellites s), dec_updated (hdop s)]"

section \<open>The custom field registry\<close>

text \<open>
  The test that ends the loop of \<^verbatim>\<open>TinyGPSPlus::insertCustom\<close> at an entry, and the loop:
  the new element is linked in front of the first entry at which the test holds, or at
  the end of the list.
\<close>

definition insertBefore :: "string \<Rightarrow> int \<Rightarrow> TinyGPSCustom \<Rightarrow> bool" where
  "insertBefore name n p =
     (let cmp = strcmp name (sentenceName p)
      in cmp < 0 \<or> (cmp = 0 \<and> n < termNumber p))"

fun insertCustomList ::
  "TinyGPSCustom \<Rightarrow> string \<Rightarrow> int \<Rightarrow> TinyGPSCustom list \<Rightarrow> TinyGPSCustom list" where
  "insertCustomList pElt name n [] = [pElt]"
| "insertCustomList pElt name n (p # ps) =
     (if insertBefore name n p then pElt # p # ps
      else p # insertCustomList pElt name n ps)"

text \<open>
  The position at which the loop stops. An entry at or behind it moves one place down the
  list, and a candidate pointer to such an entry follows it.
\<close>

fun insertPosition :: "string \<Rightarrow> int \<Rightarrow> TinyGPSCustom list \<Rightarrow> nat" where
  "insertPosition name n [] = 0"
| "insertPosition name n (p # ps) =
     (if insertBefore name n p then 0 else Suc (insertPosition name n ps))"

definition insertCustom :: "TinyGPSCustom \<Rightarrow> string \<Rightarrow> int \<Rightarrow> TinyGPSPlus \<Rightarrow> TinyGPSPlus" where
  "insertCustom pElt name n s =
     s\<lparr> customElts := insertCustomList pElt name n (customElts s),
        customCandidates :=
          (case customCandidates s of
             None \<Rightarrow> None
           | Some k \<Rightarrow> if insertPosition name n (customElts s) \<le> k then Some (Suc k)
                      else Some k) \<rparr>"

text \<open>
  \<^verbatim>\<open>TinyGPSCustom::begin\<close>, which the registering constructor calls: it initialises the
  object and links it into the registry of the parser.
\<close>

definition TinyGPSCustom_init :: "string \<Rightarrow> int \<Rightarrow> TinyGPSCustom" where
  "TinyGPSCustom_init name n =
     \<lparr> stagingBuffer = [], buffer = [], cust_lastCommitTime = 0, cust_valid = False,
       cust_updated = False, sentenceName = name, termNumber = n \<rparr>"

definition TinyGPSCustom_begin :: "string \<Rightarrow> int \<Rightarrow> TinyGPSPlus \<Rightarrow> TinyGPSPlus" where
  "TinyGPSCustom_begin name n gps = insertCustom (TinyGPSCustom_init name n) name n gps"

section \<open>Notions used in the statements about the parser\<close>

text \<open>The exclusive-or of the bytes of a text, as the NMEA checksum is defined.\<close>

definition xorsum :: "string \<Rightarrow> 8 word" where
  "xorsum cs = foldr (\<lambda>c a. of_char c XOR a) cs 0"

text \<open>An ordinary character takes the \<^verbatim>\<open>default\<close> branch of \<open>encode\<close>.\<close>

definition ordinaryChar :: "char \<Rightarrow> bool" where
  "ordinaryChar c = (\<not> isTerminator c \<and> c \<noteq> CHR ''$'')"

text \<open>
  What a container publishes: everything but its staged value. The committed view of a
  parser collects this for the eight native containers and for every registry entry.
\<close>

definition committedLocation :: "TinyGPSLocation \<Rightarrow> TinyGPSLocation" where
  "committedLocation l = l\<lparr> rawNewLatData := RawDegrees_new, rawNewLngData := RawDegrees_new \<rparr>"

definition committedDate :: "TinyGPSDate \<Rightarrow> TinyGPSDate" where
  "committedDate d = d\<lparr> date_newDate := 0 \<rparr>"

definition committedTime :: "TinyGPSTime \<Rightarrow> TinyGPSTime" where
  "committedTime t = t\<lparr> time_newTime := 0 \<rparr>"

definition committedDecimal :: "TinyGPSDecimal \<Rightarrow> TinyGPSDecimal" where
  "committedDecimal d = d\<lparr> dec_newval := 0 \<rparr>"

definition committedInteger :: "TinyGPSInteger \<Rightarrow> TinyGPSInteger" where
  "committedInteger i = i\<lparr> int_newval := 0 \<rparr>"

definition committedCustom :: "TinyGPSCustom \<Rightarrow> TinyGPSCustom" where
  "committedCustom p = p\<lparr> stagingBuffer := [] \<rparr>"

definition committedView ::
  "TinyGPSPlus \<Rightarrow>
   (TinyGPSLocation \<times> TinyGPSDate \<times> TinyGPSTime \<times> TinyGPSDecimal \<times> TinyGPSDecimal)
   \<times> (TinyGPSDecimal \<times> TinyGPSInteger \<times> TinyGPSDecimal) \<times> TinyGPSCustom list" where
  "committedView s =
     ((committedLocation (location s), committedDate (date s), committedTime (time s),
       committedDecimal (speed s), committedDecimal (course s)),
      (committedDecimal (altitude s), committedInteger (satellites s),
       committedDecimal (hdop s)),
      map committedCustom (customElts s))"

text \<open>The three statistics counters that a checksum comparison can change.\<close>

definition checksumCounters :: "TinyGPSPlus \<Rightarrow> 32 word \<times> 32 word \<times> 32 word" where
  "checksumCounters s = (sentencesWithFixCount s, failedChecksumCount s, passedChecksumCount s)"

text \<open>The eight native containers with their staged values, and the fix flag.\<close>

definition nativeFields ::
  "TinyGPSPlus \<Rightarrow>
   (TinyGPSLocation \<times> TinyGPSDate \<times> TinyGPSTime \<times> TinyGPSDecimal \<times> TinyGPSDecimal)
   \<times> (TinyGPSDecimal \<times> TinyGPSInteger \<times> TinyGPSDecimal) \<times> bool" where
  "nativeFields s =
     ((location s, date s, time s, speed s, course s),
      (altitude s, satellites s, hdop s), sentenceHasFix s)"

text \<open>
  The order of the registry: ascending by sentence name and, for equal names, ascending
  by term number.
\<close>

definition entryLe :: "TinyGPSCustom \<Rightarrow> TinyGPSCustom \<Rightarrow> bool" where
  "entryLe p q =
     (strcmp (sentenceName p) (sentenceName q) < 0
      \<or> (sentenceName p = sentenceName q \<and> termNumber p \<le> termNumber q))"

definition registrySorted :: "TinyGPSCustom list \<Rightarrow> bool" where
  "registrySorted ps = sorted_wrt entryLe ps"

text \<open>A sequence of registrations, each through \<^verbatim>\<open>TinyGPSCustom::begin\<close>.\<close>

fun registerAll :: "(string \<times> int) list \<Rightarrow> TinyGPSPlus \<Rightarrow> TinyGPSPlus" where
  "registerAll [] s = s"
| "registerAll ((name, n) # regs) s = registerAll regs (TinyGPSCustom_begin name n s)"

text \<open>The position of the first registry entry with a given name, if there is one.\<close>

fun firstWithName :: "string \<Rightarrow> TinyGPSCustom list \<Rightarrow> nat option" where
  "firstWithName name [] = None"
| "firstWithName name (p # ps) =
     (if sentenceName p = name then Some 0 else map_option Suc (firstWithName name ps))"

text \<open>
  The candidate run of a position in the registry: the entries from that position on that
  carry the name of the entry at that position, up to the first entry with another name.
\<close>

definition candidateRun :: "nat \<Rightarrow> TinyGPSCustom list \<Rightarrow> TinyGPSCustom list" where
  "candidateRun k ps =
     (case drop k ps of
        [] \<Rightarrow> []
      | p # qs \<Rightarrow> takeWhile (\<lambda>q. sentenceName q = sentenceName p) (p # qs))"

text \<open>The four sentence names that \<open>endOfTermHandler\<close> recognizes, by kind.\<close>

definition isRMCName :: "string \<Rightarrow> bool" where
  "isRMCName name = (name = ''GPRMC'' \<or> name = ''GNRMC'')"

definition isGGAName :: "string \<Rightarrow> bool" where
  "isGGAName name = (name = ''GPGGA'' \<or> name = ''GNGGA'')"

text \<open>
  The invariant of a parser object: the term offset stays inside the 15 bytes of the
  term buffer.
\<close>

definition parserInv :: "TinyGPSPlus \<Rightarrow> bool" where
  "parserInv s = (curTermOffset s < 15 \<and> length (term_buf s) = 15)"

text \<open>
  The input as the tokenizer divides it. \<open>sinceDollar\<close> is the input after the last \<open>$\<close>,
  \<open>currentField\<close> the characters after the last term terminator, the text of the term in
  progress. The term in progress is a checksum field when the last terminator is a \<open>*\<close>.
\<close>

definition sinceDollar :: "string \<Rightarrow> string" where
  "sinceDollar cs = rev (takeWhile (\<lambda>x. x \<noteq> CHR ''$'') (rev cs))"

definition currentField :: "string \<Rightarrow> string" where
  "currentField u = rev (takeWhile (\<lambda>x. \<not> isTerminator x) (rev u))"

definition inChecksumField :: "string \<Rightarrow> bool" where
  "inChecksumField u =
     (case dropWhile (\<lambda>x. \<not> isTerminator x) (rev u) of [] \<Rightarrow> False | d # _ \<Rightarrow> d = CHR ''*'')"

text \<open>
  The characters of a text that the checksum covers: every \<open>,\<close>, and every character
  that is no terminator and stands outside a checksum field.
\<close>

definition coveredChars :: "string \<Rightarrow> string" where
  "coveredChars u =
     concat (map (\<lambda>k. if u ! k = CHR '','' \<or> (\<not> isTerminator (u ! k) \<and> \<not> inChecksumField (take k u))
                       then [u ! k] else [])
                 [0..<length u])"

text \<open>
  The two bytes read as the checksum of a field that has at least one character: its
  first two characters, the second one NUL when the field has one character only.
\<close>

definition checksumBytes :: "string \<Rightarrow> char list" where
  "checksumBytes f = take 2 (f @ [NUL])"

text \<open>The number that a hex digit writes.\<close>

definition hexValue :: "char \<Rightarrow> nat option" where
  "hexValue a =
     map_of (zip ''0123456789ABCDEFabcdef''
                 [0, 1, 2, 3, 4, 5, 6, 7, 8, 9, 10, 11, 12, 13, 14, 15, 10, 11, 12, 13, 14, 15]) a"

text \<open>
  The fields of a sentence. A sentence with the fields \<open>name # fs\<close>, field 0 being the
  name, has the text \<open>name @ fieldsText fs\<close> between \<open>$\<close> and \<open>*\<close>. \<open>fieldHead\<close> is the first
  character of a field, NUL for a field without characters.
\<close>

definition fieldsText :: "string list \<Rightarrow> string" where
  "fieldsText fs = concat (map (\<lambda>f. CHR '','' # f) fs)"

definition fieldHead :: "string \<Rightarrow> char" where
  "fieldHead f = (case f of [] \<Rightarrow> NUL | x # _ \<Rightarrow> x)"

text \<open>
  The fix that the fields of a sentence indicate. The position and velocity sentence
  indicates a fix by a status, field 2, that begins with \<open>A\<close>; the fix-data sentence by a
  fix quality, field 6, that begins with a character above \<open>0\<close>. In both kinds a field 34
  that begins with another character than NUL decides instead, by the test for \<open>A\<close>.
\<close>

definition fixField :: "string \<Rightarrow> nat" where
  "fixField name = (if isRMCName name then 2 else 6)"

definition fixTest :: "string \<Rightarrow> char \<Rightarrow> bool" where
  "fixTest name x =
     (if isRMCName name then x = CHR ''A'' else char_value x > char_value CHR ''0'')"

definition indicatesFix :: "string \<Rightarrow> string list \<Rightarrow> bool" where
  "indicatesFix name fl =
     (if 34 < length fl \<and> fieldHead (fl ! 34) \<noteq> NUL then fieldHead (fl ! 34) = CHR ''A''
      else fixField name < length fl \<and> fixTest name (fieldHead (fl ! fixField name)))"

section \<open>What the decoders are specified to compute\<close>

text \<open>
  The number written by a list of decimal digits, and the fixed-point value the
  specification gives for a text: an optional leading minus sign, an integer part, and up
  to two digits after a decimal point, scaled by 100.
\<close>

fun decimal_of :: "string \<Rightarrow> int" where
  "decimal_of [] = 0"
| "decimal_of (c # cs) = digit c * 10 ^ length cs + decimal_of cs"

definition parseFixedPointDecimal_spec :: "string \<Rightarrow> int" where
  "parseFixedPointDecimal_spec text =
     (let minus = (case text of [] \<Rightarrow> False | c # _ \<Rightarrow> c = CHR ''-'');
          body = (if minus then tl text else text);
          integer_part = decimal_of (takeWhile isdigit body);
          after = dropWhile isdigit body;
          d1 = (case after of c0 # c1 # _ \<Rightarrow> if c0 = CHR ''.'' \<and> isdigit c1 then digit c1 else 0
                | _ \<Rightarrow> 0);
          d2 = (case after of c0 # c1 # c2 # _ \<Rightarrow>
                   if c0 = CHR ''.'' \<and> isdigit c1 \<and> isdigit c2 then digit c2 else 0
                | _ \<Rightarrow> 0);
          v = 100 * integer_part + 10 * d1 + d2
      in if minus then - v else v)"

definition plainNumber :: "string \<Rightarrow> bool" where
  "plainNumber text =
     (case (case text of [] \<Rightarrow> [] | c # cs \<Rightarrow> if c = CHR ''-'' then cs else text) of
        [] \<Rightarrow> True
      | c # _ \<Rightarrow> \<not> isspace c \<and> c \<noteq> CHR ''+'' \<and> c \<noteq> CHR ''-'')"

text \<open>
  The specification of the degrees and minutes decoder: the fractional digits are weighted
  by a multiplier that starts at \<open>10^7\<close> and is divided by 10 for each digit.
\<close>

fun fractionMinutes_spec :: "nat \<Rightarrow> string \<Rightarrow> nat" where
  "fractionMinutes_spec multiplier [] = 0"
| "fractionMinutes_spec multiplier (c # cs) =
     nat (digit c) * (multiplier div 10) + fractionMinutes_spec (multiplier div 10) cs"

definition tenMillionths_spec :: "string \<Rightarrow> string \<Rightarrow> nat" where
  "tenMillionths_spec ds fs = (nat (decimal_of ds) mod 100) * 10 ^ 7 + fractionMinutes_spec (10 ^ 7) fs"

definition degreesText :: "string \<Rightarrow> string option \<Rightarrow> string" where
  "degreesText ds frac = ds @ (case frac of None \<Rightarrow> [] | Some fs \<Rightarrow> CHR ''.'' # fs)"

definition fractionText :: "string option \<Rightarrow> string" where
  "fractionText frac = (case frac of None \<Rightarrow> [] | Some fs \<Rightarrow> fs)"


section \<open>The numeric decoders refine their specification\<close>

lemma strtol_digits_acc:
  "strtol_digits acc cs = acc * 10 ^ length (takeWhile isdigit cs) + decimal_of (takeWhile isdigit cs)"
  by (induction cs arbitrary: acc) (simp_all add: algebra_simps)

lemma strtol_digits_0: "strtol_digits 0 cs = decimal_of (takeWhile isdigit cs)"
  by (simp add: strtol_digits_acc)

lemma isdigit_not_space: "isdigit c \<Longrightarrow> \<not> isspace c"
  by (auto simp: isdigit_def isspace_def)

lemma atol_plain:
  assumes "case cs of [] \<Rightarrow> True | c # _ \<Rightarrow> \<not> isspace c \<and> c \<noteq> CHR ''+'' \<and> c \<noteq> CHR ''-''"
  shows "atol cs = decimal_of (takeWhile isdigit cs)"
  using assms by (cases cs) (simp_all add: atol_def strtol_digits_0 del: strtol_digits.simps)

lemma fraction_word:
  fixes r :: int
  shows "(case after of
            c0 # c1 # rest \<Rightarrow>
              if c0 = CHR ''.'' \<and> isdigit c1
              then (let r' = (word_of_int r :: 32 word) + 10 * word_of_int (digit c1)
                    in case rest of
                         [] \<Rightarrow> r'
                       | c2 # _ \<Rightarrow> if isdigit c2 then r' + word_of_int (digit c2) else r')
              else word_of_int r
          | _ \<Rightarrow> word_of_int r)
       = word_of_int (r
           + 10 * (case after of c0 # c1 # _ \<Rightarrow> if c0 = CHR ''.'' \<and> isdigit c1 then digit c1 else 0
                   | _ \<Rightarrow> 0)
           + (case after of c0 # c1 # c2 # _ \<Rightarrow>
                   if c0 = CHR ''.'' \<and> isdigit c1 \<and> isdigit c2 then digit c2 else 0
                | _ \<Rightarrow> 0))"
proof (cases after)
  case Nil
  then show ?thesis by simp
next
  case outer: (Cons c0 r0)
  show ?thesis
  proof (cases r0)
    case Nil
    with outer show ?thesis by simp
  next
    case mid: (Cons c1 r1)
    show ?thesis
      by (cases r1) (simp_all add: outer mid Let_def)
  qed
qed

lemma parseDecimal_word:
  assumes "plainNumber text"
  shows "parseDecimal text = word_of_int (parseFixedPointDecimal_spec text)"
proof -
  define body where "body = (case text of [] \<Rightarrow> [] | c # cs \<Rightarrow> if c = CHR ''-'' then cs else text)"
  define minus where "minus = (case text of [] \<Rightarrow> False | c # _ \<Rightarrow> c = CHR ''-'')"
  have a: "atol body = decimal_of (takeWhile isdigit body)"
    using assms unfolding plainNumber_def body_def [symmetric] by (rule atol_plain)
  have b: "(if minus then tl text else text) = body"
    by (simp add: body_def minus_def split: list.splits)
  have c: "100 * (word_of_int (atol body) :: 32 word) = word_of_int (100 * decimal_of (takeWhile isdigit body))"
    by (simp add: a)
  show ?thesis
    unfolding parseDecimal_def parseFixedPointDecimal_spec_def minus_def [symmetric]
    by (simp only: Let_def b c fraction_word [unfolded Let_def]) simp
qed

lemma digit_range: "isdigit c \<Longrightarrow> 0 \<le> digit c \<and> digit c \<le> 9"
  by (auto simp: isdigit_def digit_def)

lemma decimal_of_nonneg: "\<forall>c\<in>set ds. isdigit c \<Longrightarrow> 0 \<le> decimal_of ds"
  by (induction ds) (auto dest: digit_range)

lemma fractionMinutes_spec_le:
  "\<forall>c\<in>set fs. isdigit c \<Longrightarrow> fractionMinutes_spec m fs \<le> m"
proof (induction fs arbitrary: m)
  case Nil
  then show ?case by simp
next
  case (Cons c cs)
  have d: "nat (digit c) \<le> 9" using Cons.prems digit_range [of c] by auto
  have "fractionMinutes_spec (m div 10) cs \<le> m div 10" using Cons by simp
  moreover have "nat (digit c) * (m div 10) \<le> 9 * (m div 10)" by (rule mult_le_mono1 [OF d])
  moreover have "9 * (m div 10) + m div 10 \<le> m" by arith
  ultimately show ?case unfolding fractionMinutes_spec.simps by linarith
qed

lemma fractionDigits_unat:
  assumes "\<forall>c\<in>set fs. isdigit c" and "unat acc + unat m < 2 ^ 32"
  shows "unat (fractionDigits m acc fs) = unat acc + fractionMinutes_spec (unat m) fs"
  using assms
proof (induction fs arbitrary: m acc)
  case Nil
  then show ?case by simp
next
  case (Cons c cs)
  have dig: "isdigit c" and rest: "\<forall>c\<in>set cs. isdigit c" using Cons.prems(1) by simp_all
  have d: "0 \<le> digit c" "digit c \<le> 9" using digit_range [OF dig] by simp_all
  define k where "k = nat (digit c)"
  have k9: "k \<le> 9" using d by (simp add: k_def)
  have wk: "(word_of_int (digit c) :: 32 word) = of_nat k" using d by (simp add: k_def)
  have uk: "unat (of_nat k :: 32 word) = k" using k9 by (simp add: unat_of_nat)
  have m10: "unat (m div 10) = unat m div 10" by (simp add: unat_div)
  have prod: "k * (unat m div 10) \<le> unat m"
  proof -
    have "k * (unat m div 10) \<le> 9 * (unat m div 10)" by (rule mult_le_mono1 [OF k9])
    moreover have "9 * (unat m div 10) \<le> unat m" by arith
    ultimately show ?thesis by linarith
  qed
  have "unat (of_nat k :: 32 word) * unat (m div 10) < 2 ^ LENGTH(32)"
    using prod Cons.prems(2) by (simp add: uk m10)
  then have umul: "unat (of_nat k * (m div 10) :: 32 word) = k * (unat m div 10)"
    by (simp add: unat_mult_lem [THEN iffD1] uk m10)
  have sum10: "k * (unat m div 10) + unat m div 10 \<le> unat m"
  proof -
    have "k * (unat m div 10) \<le> 9 * (unat m div 10)" by (rule mult_le_mono1 [OF k9])
    moreover have "9 * (unat m div 10) + unat m div 10 \<le> unat m" by arith
    ultimately show ?thesis by linarith
  qed
  have "unat acc + unat (of_nat k * (m div 10) :: 32 word) < 2 ^ LENGTH(32)"
    using sum10 Cons.prems(2) by (simp add: umul)
  then have uadd: "unat (acc + of_nat k * (m div 10)) = unat acc + k * (unat m div 10)"
    by (simp add: unat_add_lem [THEN iffD1] umul)
  have bound: "unat (acc + of_nat k * (m div 10)) + unat (m div 10) < 2 ^ 32"
    using sum10 Cons.prems(2) by (simp add: uadd m10)
  have "unat (fractionDigits (m div 10) (acc + of_nat k * (m div 10)) cs)
        = unat (acc + of_nat k * (m div 10)) + fractionMinutes_spec (unat (m div 10)) cs"
    by (rule Cons.IH [OF rest bound])
  then show ?case
    using dig by (simp add: wk uadd m10 k_def [symmetric])
qed


lemma not_isdigit_dot: "\<not> isdigit CHR ''.''"
  by (simp add: isdigit_def)

lemma takeWhile_digits_degreesText:
  "\<forall>c\<in>set ds. isdigit c \<Longrightarrow> takeWhile isdigit (degreesText ds frac) = ds"
  by (cases frac) (simp_all add: degreesText_def not_isdigit_dot)

lemma dropWhile_digits_degreesText:
  "\<forall>c\<in>set ds. isdigit c \<Longrightarrow>
   dropWhile isdigit (degreesText ds frac) = (case frac of None \<Rightarrow> [] | Some fs \<Rightarrow> CHR ''.'' # fs)"
  by (cases frac) (simp_all add: degreesText_def not_isdigit_dot)

lemma atol_degreesText:
  assumes "\<forall>c\<in>set ds. isdigit c"
  shows "atol (degreesText ds frac) = decimal_of ds"
proof -
  have "case degreesText ds frac of [] \<Rightarrow> True
        | c # _ \<Rightarrow> \<not> isspace c \<and> c \<noteq> CHR ''+'' \<and> c \<noteq> CHR ''-''"
  proof (cases ds)
    case Nil
    then show ?thesis by (cases frac) (simp_all add: degreesText_def isspace_def)
  next
    case (Cons d ds')
    then have "isdigit d" using assms by simp
    then have "\<not> isspace d \<and> d \<noteq> CHR ''+'' \<and> d \<noteq> CHR ''-''"
      by (auto simp: isdigit_def isspace_def)
    then show ?thesis by (simp add: degreesText_def Cons)
  qed
  then show ?thesis
    by (simp add: atol_plain takeWhile_digits_degreesText [OF assms])
qed

lemma parseDegrees_unat:
  assumes ds: "\<forall>c\<in>set ds. isdigit c" and fs: "\<forall>c\<in>set (fractionText frac). isdigit c"
    and n: "decimal_of ds < 2 ^ 32"
  shows "unat (deg (parseDegrees (degreesText ds frac))) = (nat (decimal_of ds) div 100) mod 2 ^ 16"
    and "unat (billionths (parseDegrees (degreesText ds frac)))
         = ((5 * tenMillionths_spec ds (fractionText frac) + 1) mod 2 ^ 32) div 3"
    and "\<not> negative (parseDegrees (degreesText ds frac))"
proof -
  define n where "n = nat (decimal_of ds)"
  have n0: "0 \<le> decimal_of ds" by (rule decimal_of_nonneg [OF ds])
  have nlt: "n < 2 ^ 32" using n n0 by (simp add: n_def)
  have w: "(word_of_int (atol (degreesText ds frac)) :: 32 word) = of_nat n"
    using n0 by (simp add: atol_degreesText [OF ds] n_def)
  have un: "unat (of_nat n :: 32 word) = n" using nlt by (simp add: unat_of_nat)
  have umod: "unat ((of_nat n :: 32 word) mod 100) = n mod 100" by (simp add: unat_mod un)
  have udiv: "unat ((of_nat n :: 32 word) div 100) = n div 100" by (simp add: unat_div un)
  have "n mod 100 < 100" by simp
  then have small: "n mod 100 < 2 ^ 16" "n mod 100 < 2 ^ 32" by simp_all
  have min16: "unat (ucast ((of_nat n :: 32 word) mod 100) :: 16 word) = n mod 100"
    using small(1) by (simp add: unsigned_ucast_eq umod take_bit_nat_eq_self)
  have wide: "unat (ucast (ucast ((of_nat n :: 32 word) mod 100) :: 16 word) :: 32 word) = n mod 100"
    using small(2) by (simp add: unsigned_ucast_eq [of "ucast ((of_nat n :: 32 word) mod 100) :: 16 word"] min16 take_bit_nat_eq_self)
  have "unat (ucast (ucast ((of_nat n :: 32 word) mod 100) :: 16 word) :: 32 word) * unat (10000000 :: 32 word)
        < 2 ^ LENGTH(32)"
    unfolding wide by simp
  then have t0: "unat ((ucast (ucast ((of_nat n :: 32 word) mod 100) :: 16 word) :: 32 word) * 10000000)
        = (n mod 100) * 10000000"
    by (simp add: unat_mult_lem [THEN iffD1] wide)
  show "unat (deg (parseDegrees (degreesText ds frac))) = (nat (decimal_of ds) div 100) mod 2 ^ 16"
    by (simp add: parseDegrees_def Let_def w unsigned_ucast_eq udiv take_bit_eq_mod n_def [symmetric])
  show "\<not> negative (parseDegrees (degreesText ds frac))"
    by (simp add: parseDegrees_def Let_def)
  have t1: "unat (case dropWhile isdigit (degreesText ds frac) of
               [] \<Rightarrow> (ucast (ucast ((of_nat n :: 32 word) mod 100) :: 16 word) :: 32 word) * 10000000
             | c # cs \<Rightarrow> if c = CHR ''.''
                        then fractionDigits 10000000 ((ucast (ucast ((of_nat n :: 32 word) mod 100) :: 16 word) :: 32 word) * 10000000) cs
                        else (ucast (ucast ((of_nat n :: 32 word) mod 100) :: 16 word) :: 32 word) * 10000000)
        = tenMillionths_spec ds (fractionText frac)"
  proof (cases frac)
    case None
    then show ?thesis
      by (simp add: dropWhile_digits_degreesText [OF ds] t0 tenMillionths_spec_def fractionText_def n_def [symmetric])
  next
    case (Some fs')
    have digs: "\<forall>c\<in>set fs'. isdigit c" using fs Some by (simp add: fractionText_def)
    have "unat ((ucast (ucast ((of_nat n :: 32 word) mod 100) :: 16 word) :: 32 word) * 10000000)
          + unat (10000000 :: 32 word) < 2 ^ 32"
      unfolding t0 by simp
    from fractionDigits_unat [OF digs this] show ?thesis
      by (simp add: Some dropWhile_digits_degreesText [OF ds] t0 tenMillionths_spec_def fractionText_def n_def [symmetric])
  qed
  show "unat (billionths (parseDegrees (degreesText ds frac)))
         = ((5 * tenMillionths_spec ds (fractionText frac) + 1) mod 2 ^ 32) div 3"
    unfolding parseDegrees_def Let_def w
    by (simp add: unat_div unat_word_ariths t1 mod_Suc_eq)
qed


section \<open>Claims about the numeric decoders\<close>

text \<open>
  C5, as amended. For every text that, after an optional leading \<open>-\<close>, does not begin with
  white space or a sign, and whose specified value fits the 32-bit signed result, the
  fixed-point decimal parser returns 100 times the integer part plus 10 times the first
  digit after the decimal point plus the second digit after it, negated if the text
  begins with \<open>-\<close>; an absent decimal point and absent fractional digits contribute zero
  and third and later fractional digits are ignored. It maps \<open>123.456\<close> to 12345, \<open>-5\<close> to
  -500 and \<open>0.6\<close> to 60. The parser is a total function: it has no failing branch.
\<close>

theorem parseDecimal_fixed_point:
  assumes "plainNumber text"
    and "- (2 ^ 31) \<le> parseFixedPointDecimal_spec text"
    and "parseFixedPointDecimal_spec text < 2 ^ 31"
  shows "sint (parseDecimal text) = parseFixedPointDecimal_spec text
       \<and> sint (parseDecimal ''123.456'') = 12345
       \<and> sint (parseDecimal ''-5'') = - 500
       \<and> sint (parseDecimal ''0.6'') = 60"
proof -
  have "sint (word_of_int (parseFixedPointDecimal_spec text) :: 32 word)
        = parseFixedPointDecimal_spec text"
    using assms(2,3) by (simp add: signed_of_int signed_take_bit_int_eq_self)
  then have general: "sint (parseDecimal text) = parseFixedPointDecimal_spec text"
    by (simp add: parseDecimal_word [OF assms(1)])
  have e1: "sint (parseDecimal ''123.456'') = 12345"
    by (simp add: parseDecimal_def atol_def isdigit_def isspace_def digit_def)
  have e2: "sint (parseDecimal ''-5'') = - 500"
    by (simp add: parseDecimal_def atol_def isdigit_def isspace_def digit_def)
  have e3: "sint (parseDecimal ''0.6'') = 60"
    by (simp add: parseDecimal_def atol_def isdigit_def isspace_def digit_def)
  from general e1 e2 e3 show ?thesis by simp
qed

theorem parseDecimal_fixed_point_witness:
  "plainNumber ''-12.34'' \<and> parseFixedPointDecimal_spec ''-12.34'' = - 1234
   \<and> sint (parseDecimal ''-12.34'') = - 1234"
proof -
  have h1: "plainNumber ''-12.34''"
    by (simp add: plainNumber_def isspace_def)
  have v: "parseFixedPointDecimal_spec ''-12.34'' = - 1234"
    by (simp add: parseFixedPointDecimal_spec_def isdigit_def digit_def)
  have h2: "- (2 ^ 31) \<le> parseFixedPointDecimal_spec ''-12.34''"
    and h3: "parseFixedPointDecimal_spec ''-12.34'' < 2 ^ 31"
    by (simp_all add: v)
  from parseDecimal_fixed_point [OF h1 h2 h3] h1 v show ?thesis by simp
qed

text \<open>
  The claim as stated, for every input text, fails: eight digits overflow the 32-bit
  result, and after a leading \<open>+\<close> the integer part is read but the fraction is not.
\<close>

theorem parseDecimal_fixed_point_counterexample:
  "parseFixedPointDecimal_spec ''99999999'' = 9999999900
   \<and> sint (parseDecimal ''99999999'') = 1410065308
   \<and> sint (parseDecimal ''+1.5'') = 100"
  by (simp add: parseFixedPointDecimal_spec_def parseDecimal_def atol_def isdigit_def
      isspace_def digit_def)

text \<open>
  C6, as amended. For every text made of integer digits, optionally followed by \<open>.\<close> and
  fractional digits, whose leading integer is below 6553600 and for which \<open>5 * T + 1\<close> is
  below \<open>2^32\<close>, the degrees and minutes parser gives degrees = leading integer div 100 and
  billionths = \<open>(5 * T + 1) div 3\<close>, where \<open>T\<close> is the whole minutes (leading integer mod
  100) times \<open>10^7\<close> plus the fractional digits weighted by a multiplier that starts at
  \<open>10^7\<close>, is divided by 10 for each digit and contributes zero once it is zero. The sign
  flag is not negative. The text \<open>4807.038\<close> gives degrees 48 and billionths 117300000.
\<close>

theorem parseDegrees_exact:
  assumes "\<forall>c\<in>set ds. isdigit c"
    and "\<forall>c\<in>set (fractionText frac). isdigit c"
    and "decimal_of ds < 6553600"
    and "5 * tenMillionths_spec ds (fractionText frac) + 1 < 2 ^ 32"
  shows "unat (deg (parseDegrees (degreesText ds frac))) = nat (decimal_of ds) div 100
       \<and> unat (billionths (parseDegrees (degreesText ds frac)))
           = (5 * tenMillionths_spec ds (fractionText frac) + 1) div 3
       \<and> \<not> negative (parseDegrees (degreesText ds frac))
       \<and> parseDegrees ''4807.038'' = \<lparr> deg = 48, billionths = 117300000, negative = False \<rparr>"
proof -
  have n32: "decimal_of ds < 2 ^ 32" using assms(3) by simp
  have small: "nat (decimal_of ds) div 100 < 2 ^ 16" using assms(3) by simp
  have d: "unat (deg (parseDegrees (degreesText ds frac))) = nat (decimal_of ds) div 100"
    using parseDegrees_unat(1) [OF assms(1,2) n32] small by simp
  have b: "unat (billionths (parseDegrees (degreesText ds frac)))
           = (5 * tenMillionths_spec ds (fractionText frac) + 1) div 3"
    using parseDegrees_unat(2) [OF assms(1,2) n32] assms(4) by simp
  have e: "parseDegrees ''4807.038'' = \<lparr> deg = 48, billionths = 117300000, negative = False \<rparr>"
    by (simp add: parseDegrees_def atol_def isdigit_def isspace_def digit_def)
  from d b parseDegrees_unat(3) [OF assms(1,2) n32] e show ?thesis by simp
qed

theorem parseDegrees_exact_witness:
  "degreesText ''4807'' (Some ''038'') = ''4807.038''
   \<and> unat (deg (parseDegrees ''4807.038'')) = 48
   \<and> unat (billionths (parseDegrees ''4807.038'')) = 117300000"
proof -
  have h1: "\<forall>c\<in>set ''4807''. isdigit c" by (simp add: isdigit_def)
  have h2: "\<forall>c\<in>set (fractionText (Some ''038'')). isdigit c"
    by (simp add: fractionText_def isdigit_def)
  have h3: "decimal_of ''4807'' < 6553600" by (simp add: digit_def)
  have t: "tenMillionths_spec ''4807'' (fractionText (Some ''038'')) = 70380000"
    by (simp add: tenMillionths_spec_def fractionText_def digit_def)
  have h4: "5 * tenMillionths_spec ''4807'' (fractionText (Some ''038'')) + 1 < 2 ^ 32"
    by (simp add: t)
  have shape: "degreesText ''4807'' (Some ''038'') = ''4807.038''"
    by (simp add: degreesText_def)
  have n: "nat (decimal_of ''4807'') div 100 = 48" by (simp add: digit_def)
  from parseDegrees_exact [OF h1 h2 h3 h4] show ?thesis
    by (simp add: shape t n)
qed

text \<open>
  The claim as stated, for every text of that form, fails: with 99 whole minutes the
  32-bit product \<open>5 * T + 1\<close> wraps around, and a leading integer of 6553600 does not fit
  the 16-bit degrees.
\<close>

theorem parseDegrees_exact_counterexample:
  "unat (billionths (parseDegrees ''99'')) = 218344235
   \<and> (5 * tenMillionths_spec ''99'' [] + 1) div 3 = 1650000000
   \<and> unat (deg (parseDegrees ''6553600'')) = 0"
  by (simp add: parseDegrees_def tenMillionths_spec_def atol_def isdigit_def isspace_def
      digit_def)


section \<open>Single steps of the parser\<close>

lemma encode_ordinary:
  assumes "ordinaryChar c"
  shows "encode now c s =
     (False,
      s\<lparr> encodedCharCount := encodedCharCount s + 1,
         term_buf := (if curTermOffset s < 14 then (term_buf s)[curTermOffset s := c] else term_buf s),
         curTermOffset := (if curTermOffset s < 14 then curTermOffset s + 1 else curTermOffset s),
         parity := (if isChecksumTerm s then parity s else parity s XOR of_char c) \<rparr>)"
  using assms by (simp add: encode_def ordinaryChar_def Let_def)

lemma encode_dollar:
  "encode now CHR ''$'' s =
     (False,
      s\<lparr> encodedCharCount := encodedCharCount s + 1, curTermNumber := 0, curTermOffset := 0,
         parity := 0, curSentenceType := GPS_SENTENCE_OTHER, isChecksumTerm := False,
         sentenceHasFix := False \<rparr>)"
  by (simp add: encode_def isTerminator_def CR_def LF_def Let_def)

lemma encode_terminator:
  assumes "isTerminator c" and "curTermOffset s < 15"
  shows "encode now c s =
     (fst (endOfTermHandler now (beforeHandler c s)),
      (snd (endOfTermHandler now (beforeHandler c s)))
        \<lparr> curTermNumber := curTermNumber (snd (endOfTermHandler now (beforeHandler c s))) + 1,
          curTermOffset := 0, isChecksumTerm := (c = CHR ''*'') \<rparr>)"
  using assms
  by (simp add: encode_def beforeHandler_def foldSeparator_def Let_def split_beta)

lemma char_cases:
  "isTerminator c \<or> c = CHR ''$'' \<or> ordinaryChar c"
  by (auto simp: ordinaryChar_def)

lemma beforeHandler_simps [simp]:
  "isChecksumTerm (beforeHandler c s) = isChecksumTerm s"
  "curTermNumber (beforeHandler c s) = curTermNumber s"
  "curSentenceType (beforeHandler c s) = curSentenceType s"
  "sentenceHasFix (beforeHandler c s) = sentenceHasFix s"
  "customElts (beforeHandler c s) = customElts s"
  "customCandidates (beforeHandler c s) = customCandidates s"
  "curTermOffset (beforeHandler c s) = curTermOffset s"
  "location (beforeHandler c s) = location s"
  "date (beforeHandler c s) = date s"
  "time (beforeHandler c s) = time s"
  "speed (beforeHandler c s) = speed s"
  "course (beforeHandler c s) = course s"
  "altitude (beforeHandler c s) = altitude s"
  "satellites (beforeHandler c s) = satellites s"
  "hdop (beforeHandler c s) = hdop s"
  "sentencesWithFixCount (beforeHandler c s) = sentencesWithFixCount s"
  "failedChecksumCount (beforeHandler c s) = failedChecksumCount s"
  "passedChecksumCount (beforeHandler c s) = passedChecksumCount s"
  "term_buf (beforeHandler c s) = (term_buf s)[curTermOffset s := NUL]"
  "parity (beforeHandler c s) = (if c = CHR '','' then parity s XOR of_char c else parity s)"
  by (simp_all add: beforeHandler_def foldSeparator_def terminateTerm_def)

text \<open>The return value of one step.\<close>

lemma encode_fst:
  assumes "curTermOffset s < 15"
  shows "fst (encode now c s)
         = (isTerminator c \<and> isChecksumTerm s
            \<and> checksumOf (term_buf (beforeHandler c s)) = parity (beforeHandler c s))"
proof -
  consider "isTerminator c" | "c = CHR ''$''" | "ordinaryChar c" using char_cases by blast
  then show ?thesis
  proof cases
    case 1
    then show ?thesis
      by (simp add: encode_terminator [OF 1 assms] endOfTermHandler_def Let_def)
  next
    case 2
    then show ?thesis by (simp add: encode_dollar isTerminator_def CR_def LF_def)
  next
    case 3
    then show ?thesis by (simp add: encode_ordinary ordinaryChar_def)
  qed
qed

lemma dispatchTerm_frame [simp]:
  "term_buf (dispatchTerm s) = term_buf s"
  "curTermOffset (dispatchTerm s) = curTermOffset s"
  "curTermNumber (dispatchTerm s) = curTermNumber s"
  "curSentenceType (dispatchTerm s) = curSentenceType s"
  "isChecksumTerm (dispatchTerm s) = isChecksumTerm s"
  "parity (dispatchTerm s) = parity s"
  "customElts (dispatchTerm s) = customElts s"
  "customCandidates (dispatchTerm s) = customCandidates s"
  "encodedCharCount (dispatchTerm s) = encodedCharCount s"
  "sentencesWithFixCount (dispatchTerm s) = sentencesWithFixCount s"
  "failedChecksumCount (dispatchTerm s) = failedChecksumCount s"
  "passedChecksumCount (dispatchTerm s) = passedChecksumCount s"
  by (simp_all add: dispatchTerm_def Let_def)


lemma commitSentence_frame [simp]:
  "term_buf (commitSentence now s) = term_buf s"
  "curTermOffset (commitSentence now s) = curTermOffset s"
  "curTermNumber (commitSentence now s) = curTermNumber s"
  "curSentenceType (commitSentence now s) = curSentenceType s"
  "isChecksumTerm (commitSentence now s) = isChecksumTerm s"
  "sentenceHasFix (commitSentence now s) = sentenceHasFix s"
  "parity (commitSentence now s) = parity s"
  "customElts (commitSentence now s) = customElts s"
  "customCandidates (commitSentence now s) = customCandidates s"
  "encodedCharCount (commitSentence now s) = encodedCharCount s"
  "sentencesWithFixCount (commitSentence now s) = sentencesWithFixCount s"
  "failedChecksumCount (commitSentence now s) = failedChecksumCount s"
  "passedChecksumCount (commitSentence now s) = passedChecksumCount s"
  by (simp_all add: commitSentence_def Let_def split: sentence_type.split)

lemma endOfTermHandler_frame [simp]:
  "term_buf (snd (endOfTermHandler now s)) = term_buf s"
  "curTermOffset (snd (endOfTermHandler now s)) = curTermOffset s"
  "curTermNumber (snd (endOfTermHandler now s)) = curTermNumber s"
  "isChecksumTerm (snd (endOfTermHandler now s)) = isChecksumTerm s"
  "parity (snd (endOfTermHandler now s)) = parity s"
  "encodedCharCount (snd (endOfTermHandler now s)) = encodedCharCount s"
  by (simp_all add: endOfTermHandler_def Let_def)

lemma encode_terminator_frame:
  assumes "isTerminator c" and "curTermOffset s < 15"
  shows "term_buf (snd (encode now c s)) = (term_buf s)[curTermOffset s := NUL]"
    and "curTermOffset (snd (encode now c s)) = 0"
    and "curTermNumber (snd (encode now c s)) = curTermNumber s + 1"
    and "isChecksumTerm (snd (encode now c s)) = (c = CHR ''*'')"
    and "parity (snd (encode now c s)) = (if c = CHR '','' then parity s XOR of_char c else parity s)"
  by (simp_all add: encode_terminator [OF assms])

lemma parserInv_encode: "parserInv s \<Longrightarrow> parserInv (snd (encode now c s))"
proof -
  assume inv: "parserInv s"
  then have off: "curTermOffset s < 15" and len: "length (term_buf s) = 15"
    by (simp_all add: parserInv_def)
  consider "isTerminator c" | "c = CHR ''$''" | "ordinaryChar c" using char_cases by blast
  then show ?thesis
  proof cases
    case 1
    then show ?thesis
      using len by (simp add: parserInv_def encode_terminator_frame [OF 1 off])
  next
    case 2
    then show ?thesis using inv by (simp add: encode_dollar parserInv_def)
  next
    case 3
    then show ?thesis using off len by (simp add: encode_ordinary parserInv_def)
  qed
qed

lemma parserInv_feed: "parserInv s \<Longrightarrow> parserInv (feed now cs s)"
  by (induction cs arbitrary: s) (simp_all add: parserInv_encode)

lemma parserInv_new: "parserInv (TinyGPSPlus_new junk)"
  by (simp add: parserInv_def TinyGPSPlus_new_def)

lemma parserInv_insertCustom: "parserInv s \<Longrightarrow> parserInv (insertCustom p name n s)"
  by (simp add: parserInv_def insertCustom_def)

section \<open>What staging leaves alone\<close>

lemma committed_setters [simp]:
  "committedLocation (setLatitude text l) = committedLocation l"
  "committedLocation (setLongitude text l) = committedLocation l"
  "committedLocation (setLatitudeNegative b l) = committedLocation l"
  "committedLocation (setLongitudeNegative b l) = committedLocation l"
  "committedDate (setDate text d) = committedDate d"
  "committedTime (setTime text t) = committedTime t"
  "committedDecimal (TinyGPSDecimal_set text x) = committedDecimal x"
  "committedInteger (TinyGPSInteger_set text i) = committedInteger i"
  "committedCustom (TinyGPSCustom_set text p) = committedCustom p"
  by (simp_all add: committedLocation_def setLatitude_def setLongitude_def
      setLatitudeNegative_def setLongitudeNegative_def committedDate_def setDate_def
      committedTime_def setTime_def committedDecimal_def TinyGPSDecimal_set_def
      committedInteger_def TinyGPSInteger_set_def committedCustom_def TinyGPSCustom_set_def)

lemma dispatchTerm_committed [simp]:
  "committedLocation (location (dispatchTerm s)) = committedLocation (location s)"
  "committedDate (date (dispatchTerm s)) = committedDate (date s)"
  "committedTime (time (dispatchTerm s)) = committedTime (time s)"
  "committedDecimal (speed (dispatchTerm s)) = committedDecimal (speed s)"
  "committedDecimal (course (dispatchTerm s)) = committedDecimal (course s)"
  "committedDecimal (altitude (dispatchTerm s)) = committedDecimal (altitude s)"
  "committedInteger (satellites (dispatchTerm s)) = committedInteger (satellites s)"
  "committedDecimal (hdop (dispatchTerm s)) = committedDecimal (hdop s)"
  by (simp_all add: dispatchTerm_def Let_def)

lemma setCandidates_committed [simp]:
  "map committedCustom (setCandidates name n text ps) = map committedCustom ps"
  by (induction ps) simp_all

lemma setCandidates_names [simp]:
  "map sentenceName (setCandidates name n text ps) = map sentenceName ps"
  "map termNumber (setCandidates name n text ps) = map termNumber ps"
  by (induction ps) (simp_all add: TinyGPSCustom_set_def)

lemma commitCandidates_names [simp]:
  "map sentenceName (commitCandidates now name ps) = map sentenceName ps"
  "map termNumber (commitCandidates now name ps) = map termNumber ps"
  by (induction ps) (simp_all add: TinyGPSCustom_commit_def)

lemma fromCandidates_map:
  assumes "\<And>name ps. map f (loop name ps) = map f ps"
  shows "map f (fromCandidates loop s) = map f (customElts s)"
proof (cases "customCandidates s")
  case None
  then show ?thesis by (simp add: fromCandidates_def)
next
  case (Some k)
  show ?thesis
  proof (cases "drop k (customElts s)")
    case Nil
    then show ?thesis by (simp add: fromCandidates_def Some)
  next
    case (Cons p ps)
    have "map f (take k (customElts s) @ loop (sentenceName p) (p # ps))
          = map f (take k (customElts s)) @ map f (drop k (customElts s))"
      by (simp add: assms Cons)
    also have "\<dots> = map f (customElts s)"
      by (simp flip: map_append)
    finally show ?thesis by (simp add: fromCandidates_def Some Cons)
  qed
qed

lemma fromCandidates_length [simp]:
  assumes "\<And>name ps. length (loop name ps) = length ps"
  shows "length (fromCandidates loop s) = length (customElts s)"
proof -
  have "map (\<lambda>_. ()) (fromCandidates loop s) = map (\<lambda>_. ()) (customElts s)"
    by (rule fromCandidates_map) (simp add: assms list_eq_iff_nth_eq)
  then show ?thesis by (metis length_map)
qed

lemma endOfTermHandler_staging:
  assumes "\<not> isChecksumTerm s"
  shows "committedView (snd (endOfTermHandler now s)) = committedView s"
    and "checksumCounters (snd (endOfTermHandler now s)) = checksumCounters s"
    and "\<not> fst (endOfTermHandler now s)"
  using assms
  by (simp_all add: endOfTermHandler_def Let_def committedView_def checksumCounters_def
      fromCandidates_map)

section \<open>Steps that do not compare a checksum\<close>

lemma committedView_parse_state [simp]:
  "committedView (s\<lparr> encodedCharCount := a \<rparr>) = committedView s"
  "committedView (s\<lparr> curTermNumber := b \<rparr>) = committedView s"
  "committedView (s\<lparr> curTermOffset := d \<rparr>) = committedView s"
  "committedView (s\<lparr> isChecksumTerm := e \<rparr>) = committedView s"
  "committedView (s\<lparr> parity := f \<rparr>) = committedView s"
  "committedView (s\<lparr> term_buf := g \<rparr>) = committedView s"
  "committedView (s\<lparr> curSentenceType := h \<rparr>) = committedView s"
  "committedView (s\<lparr> sentenceHasFix := i \<rparr>) = committedView s"
  "committedView (s\<lparr> customCandidates := j \<rparr>) = committedView s"
  "committedView (s\<lparr> failedChecksumCount := k \<rparr>) = committedView s"
  by (simp_all add: committedView_def)

lemma checksumCounters_parse_state [simp]:
  "checksumCounters (s\<lparr> encodedCharCount := a \<rparr>) = checksumCounters s"
  "checksumCounters (s\<lparr> curTermNumber := b \<rparr>) = checksumCounters s"
  "checksumCounters (s\<lparr> curTermOffset := d \<rparr>) = checksumCounters s"
  "checksumCounters (s\<lparr> isChecksumTerm := e \<rparr>) = checksumCounters s"
  "checksumCounters (s\<lparr> parity := f \<rparr>) = checksumCounters s"
  "checksumCounters (s\<lparr> term_buf := g \<rparr>) = checksumCounters s"
  "checksumCounters (s\<lparr> curSentenceType := h \<rparr>) = checksumCounters s"
  "checksumCounters (s\<lparr> sentenceHasFix := i \<rparr>) = checksumCounters s"
  by (simp_all add: checksumCounters_def)

lemma beforeHandler_view [simp]:
  "committedView (beforeHandler c s) = committedView s"
  "checksumCounters (beforeHandler c s) = checksumCounters s"
  by (simp_all add: committedView_def checksumCounters_def)

lemma encode_staging:
  assumes "parserInv s" and "\<not> (isTerminator c \<and> isChecksumTerm s)"
  shows "committedView (snd (encode now c s)) = committedView s"
    and "checksumCounters (snd (encode now c s)) = checksumCounters s"
proof -
  have off: "curTermOffset s < 15" using assms(1) by (simp add: parserInv_def)
  consider "isTerminator c" | "c = CHR ''$''" | "ordinaryChar c" using char_cases by blast
  then have "committedView (snd (encode now c s)) = committedView s
             \<and> checksumCounters (snd (encode now c s)) = checksumCounters s"
  proof cases
    case 1
    then have "\<not> isChecksumTerm (beforeHandler c s)" using assms(2) by simp
    from endOfTermHandler_staging(1,2) [OF this, of now] show ?thesis
      by (simp add: encode_terminator [OF 1 off])
  next
    case 2
    then show ?thesis by (simp add: encode_dollar)
  next
    case 3
    then show ?thesis by (simp add: encode_ordinary)
  qed
  then show "committedView (snd (encode now c s)) = committedView s"
    and "checksumCounters (snd (encode now c s)) = checksumCounters s" by simp_all
qed

lemma encode_mismatch:
  assumes "parserInv s" and "isTerminator c" and "isChecksumTerm s"
    and "checksumOf (term_buf (beforeHandler c s)) \<noteq> parity (beforeHandler c s)"
  shows "committedView (snd (encode now c s)) = committedView s"
    and "failedChecksumCount (snd (encode now c s)) = failedChecksumCount s + 1"
    and "passedChecksumCount (snd (encode now c s)) = passedChecksumCount s"
    and "sentencesWithFixCount (snd (encode now c s)) = sentencesWithFixCount s"
proof -
  have off: "curTermOffset s < 15" using assms(1) by (simp add: parserInv_def)
  have h: "endOfTermHandler now (beforeHandler c s)
           = (False, (beforeHandler c s)\<lparr> failedChecksumCount := failedChecksumCount s + 1 \<rparr>)"
    using assms(3,4) by (simp add: endOfTermHandler_def)
  show "committedView (snd (encode now c s)) = committedView s"
    and "failedChecksumCount (snd (encode now c s)) = failedChecksumCount s + 1"
    and "passedChecksumCount (snd (encode now c s)) = passedChecksumCount s"
    and "sentencesWithFixCount (snd (encode now c s)) = sentencesWithFixCount s"
    by (simp_all add: encode_terminator [OF assms(2) off] h)
qed

lemma encode_isChecksumTerm:
  assumes "parserInv s"
  shows "isChecksumTerm (snd (encode now c s))
         = (if isTerminator c then c = CHR ''*'' else if c = CHR ''$'' then False
            else isChecksumTerm s)"
proof -
  have off: "curTermOffset s < 15" using assms(1) by (simp add: parserInv_def)
  consider "isTerminator c" | "c = CHR ''$''" | "ordinaryChar c" using char_cases by blast
  then show ?thesis
  proof cases
    case 1
    then show ?thesis by (simp add: encode_terminator_frame [OF 1 off])
  next
    case 2
    then show ?thesis by (simp add: encode_dollar isTerminator_def CR_def LF_def)
  next
    case 3
    then show ?thesis by (simp add: encode_ordinary ordinaryChar_def)
  qed
qed

text \<open>Feeding text without \<open>*\<close> outside a checksum field stages only.\<close>

lemma feed_staging:
  assumes "parserInv s" and "\<not> isChecksumTerm s" and "CHR ''*'' \<notin> set body"
  shows "committedView (feed now body s) = committedView s
       \<and> checksumCounters (feed now body s) = checksumCounters s
       \<and> \<not> isChecksumTerm (feed now body s)"
  using assms
proof (induction body arbitrary: s)
  case Nil
  then show ?case by simp
next
  case (Cons c cs)
  have c: "c \<noteq> CHR ''*''" and cs: "CHR ''*'' \<notin> set cs" using Cons.prems(3) by auto
  have step: "committedView (snd (encode now c s)) = committedView s"
    "checksumCounters (snd (encode now c s)) = checksumCounters s"
    using encode_staging [OF Cons.prems(1), of c now] Cons.prems(2) by simp_all
  have nochk: "\<not> isChecksumTerm (snd (encode now c s))"
    using c Cons.prems(2) by (simp add: encode_isChecksumTerm [OF Cons.prems(1)])
  from Cons.IH [OF parserInv_encode [OF Cons.prems(1)] nochk cs] step
  show ?case by simp
qed

text \<open>Feeding ordinary characters inside a checksum field changes the term buffer only.\<close>

lemma feed_checksum_text:
  assumes "parserInv s" and "isChecksumTerm s" and "\<forall>c\<in>set cs. ordinaryChar c"
  shows "committedView (feed now cs s) = committedView s
       \<and> checksumCounters (feed now cs s) = checksumCounters s
       \<and> isChecksumTerm (feed now cs s)
       \<and> parity (feed now cs s) = parity s
       \<and> curSentenceType (feed now cs s) = curSentenceType s
       \<and> sentenceHasFix (feed now cs s) = sentenceHasFix s
       \<and> customCandidates (feed now cs s) = customCandidates s"
  using assms
proof (induction cs arbitrary: s)
  case Nil
  then show ?case by simp
next
  case (Cons c cs)
  have c: "ordinaryChar c" and cs: "\<forall>c\<in>set cs. ordinaryChar c" using Cons.prems(3) by simp_all
  have chk: "isChecksumTerm (snd (encode now c s))"
    using c Cons.prems(2) by (simp add: encode_ordinary)
  from Cons.IH [OF parserInv_encode [OF Cons.prems(1)] chk cs] c Cons.prems(2)
  show ?case by (simp add: encode_ordinary)
qed

lemma feed_append: "feed now (xs @ ys) s = feed now ys (feed now xs s)"
  by (induction xs arbitrary: s) simp_all

lemma isUpdated_committedView:
  assumes "committedView s = committedView s'"
  shows "isUpdated s = isUpdated s'"
proof -
  have l: "\<And>x. loc_updated x = loc_updated (committedLocation x)"
    and d: "\<And>x. date_updated x = date_updated (committedDate x)"
    and t: "\<And>x. time_updated x = time_updated (committedTime x)"
    and c: "\<And>x. dec_updated x = dec_updated (committedDecimal x)"
    and i: "\<And>x. int_updated x = int_updated (committedInteger x)"
    by (simp_all add: committedLocation_def committedDate_def committedTime_def
        committedDecimal_def committedInteger_def)
  have "isUpdated s =
        (loc_updated (committedLocation (location s)) \<or> date_updated (committedDate (date s))
         \<or> time_updated (committedTime (time s)) \<or> dec_updated (committedDecimal (speed s))
         \<or> dec_updated (committedDecimal (course s)) \<or> dec_updated (committedDecimal (altitude s))
         \<or> int_updated (committedInteger (satellites s)) \<or> dec_updated (committedDecimal (hdop s)))"
    for s
    unfolding isUpdated_def by (simp flip: l d t c i)
  then show ?thesis using assms by (simp add: committedView_def)
qed

section \<open>The parity of a sentence\<close>

lemma xorsum_simps [simp]:
  "xorsum [] = 0"
  "xorsum (c # cs) = of_char c XOR xorsum cs"
  by (simp_all add: xorsum_def)

lemma encode_parity:
  assumes "parserInv s" and "\<not> isChecksumTerm s" and "c \<noteq> CHR ''$''"
  shows "parity (snd (encode now c s))
         = (if c = CR \<or> c = LF \<or> c = CHR ''*'' then parity s else parity s XOR of_char c)"
proof -
  have off: "curTermOffset s < 15" using assms(1) by (simp add: parserInv_def)
  show ?thesis
  proof (cases "isTerminator c")
    case True
    then show ?thesis
      by (auto simp: encode_terminator_frame [OF True off] isTerminator_def CR_def LF_def)
  next
    case False
    then have "ordinaryChar c" using assms(3) by (simp add: ordinaryChar_def)
    then show ?thesis using assms(2) False
      by (auto simp: encode_ordinary isTerminator_def)
  qed
qed

lemma feed_parity:
  assumes "parserInv s" and "\<not> isChecksumTerm s"
    and "CHR ''*'' \<notin> set body" and "CHR ''$'' \<notin> set body"
  shows "parity (feed now body s)
         = parity s XOR xorsum (filter (\<lambda>c. c \<noteq> CR \<and> c \<noteq> LF) body)"
  using assms
proof (induction body arbitrary: s)
  case Nil
  then show ?case by simp
next
  case (Cons c cs)
  have c: "c \<noteq> CHR ''*''" "c \<noteq> CHR ''$''"
    and cs: "CHR ''*'' \<notin> set cs" "CHR ''$'' \<notin> set cs"
    using Cons.prems(3,4) by auto
  have nochk: "\<not> isChecksumTerm (snd (encode now c s))"
    using c Cons.prems(2) by (simp add: encode_isChecksumTerm [OF Cons.prems(1)])
  have "parity (feed now (c # cs) s)
        = parity (snd (encode now c s)) XOR xorsum (filter (\<lambda>c. c \<noteq> CR \<and> c \<noteq> LF) cs)"
    using Cons.IH [OF parserInv_encode [OF Cons.prems(1)] nochk cs] by simp
  then show ?case
    using c by (simp add: encode_parity [OF Cons.prems(1,2)] xor.assoc)
qed

text \<open>
  The accumulator of a sentence when its checksum field is compared: the text between
  \<open>$\<close> and \<open>*\<close> without line ends, and the terminator of the checksum field if it is a \<open>,\<close>.
\<close>

lemma sentence_parity:
  assumes "parserInv s0"
    and "CHR ''*'' \<notin> set body" and "CHR ''$'' \<notin> set body"
    and "\<forall>c\<in>set cs. ordinaryChar c"
  shows "parity (beforeHandler t (feed now (CHR ''$'' # body @ CHR ''*'' # cs) s0))
         = (if t = CHR '','' then xorsum (filter (\<lambda>c. c \<noteq> CR \<and> c \<noteq> LF) body) XOR of_char t
            else xorsum (filter (\<lambda>c. c \<noteq> CR \<and> c \<noteq> LF) body))"
proof -
  define a where "a = snd (encode now CHR ''$'' s0)"
  define b where "b = feed now body a"
  define d where "d = snd (encode now CHR ''*'' b)"
  have inv_a: "parserInv a" unfolding a_def by (rule parserInv_encode [OF assms(1)])
  have a: "\<not> isChecksumTerm a" "parity a = 0" by (simp_all add: a_def encode_dollar)
  have inv_b: "parserInv b" unfolding b_def by (rule parserInv_feed [OF inv_a])
  have b1: "\<not> isChecksumTerm b"
    using feed_staging [OF inv_a a(1) assms(2), of now] by (simp add: b_def)
  have b2: "parity b = xorsum (filter (\<lambda>c. c \<noteq> CR \<and> c \<noteq> LF) body)"
    using feed_parity [OF inv_a a(1) assms(2,3), of now] by (simp add: b_def a(2))
  have inv_d: "parserInv d" unfolding d_def by (rule parserInv_encode [OF inv_b])
  have d1: "isChecksumTerm d"
    by (simp add: d_def encode_isChecksumTerm [OF inv_b] isTerminator_def)
  have d2: "parity d = parity b"
    by (simp add: d_def encode_parity [OF inv_b b1])
  have "feed now (CHR ''$'' # body @ CHR ''*'' # cs) s0 = feed now cs d"
    by (simp add: feed_append a_def b_def d_def)
  moreover have "parity (feed now cs d) = parity d"
    using feed_checksum_text [OF inv_d d1 assms(4), of now] by simp
  ultimately show ?thesis by (simp add: d2 b2)
qed

section \<open>Claims about the tokenizer\<close>



text \<open>
  C4. The accumulator a checksum field is compared with is the exclusive-or of the text
  between \<open>$\<close> and \<open>*\<close> when the field ends with a line end or a \<open>*\<close> (lemma
  \<open>sentence_parity\<close>). When the field ends with a \<open>,\<close>, that \<open>,\<close> is folded in first:
  the sentence \<open>$A*41,\<close>, whose checksum is right, is compared with \<open>0x6D\<close> and rejected, and
  \<open>$A*6D,\<close> is accepted.
\<close>

theorem checksum_field_separator_folded:
  "xorsum ''A'' = 0x41
   \<and> parity (beforeHandler CHR '','' (feed 0 ''$A*41'' (TinyGPSPlus_new []))) = 0x6D
   \<and> \<not> fst (encode 0 CHR '','' (feed 0 ''$A*41'' (TinyGPSPlus_new [])))
   \<and> failedChecksumCount (snd (encode 0 CHR '','' (feed 0 ''$A*41'' (TinyGPSPlus_new [])))) = 1
   \<and> fst (encode 0 CHR '','' (feed 0 ''$A*6D'' (TinyGPSPlus_new [])))
   \<and> fst (encode 0 CR (feed 0 ''$A*41'' (TinyGPSPlus_new [])))"
  by code_simp


section \<open>The order of the registry\<close>

lemma strcmp_range: "strcmp a b = - 1 \<or> strcmp a b = 0 \<or> strcmp a b = 1"
  by (induction a b rule: strcmp.induct) simp_all

lemma strcmp_eq_0_iff: "strcmp a b = 0 \<longleftrightarrow> a = b"
  by (induction a b rule: strcmp.induct) auto

lemma strcmp_swap: "strcmp b a = - strcmp a b"
  by (induction a b rule: strcmp.induct) auto

lemma strcmp_less_trans:
  "strcmp a b < 0 \<Longrightarrow> strcmp b c < 0 \<Longrightarrow> strcmp a c < 0"
proof (induction a arbitrary: b c)
  case Nil
  then show ?case by (cases b; cases c) simp_all
next
  case (Cons x xs)
  show ?case
  proof (cases b)
    case Nil
    with Cons.prems show ?thesis by simp
  next
    case b: (Cons y ys)
    show ?thesis
    proof (cases c)
      case Nil
      with Cons.prems b show ?thesis by simp
    next
      case c: (Cons z zs)
      from Cons.prems Cons.IH [of ys zs] show ?thesis
        unfolding b c by (auto split: if_splits)
    qed
  qed
qed

lemma strcmp_greater_iff: "0 < strcmp a b \<longleftrightarrow> strcmp b a < 0"
  using strcmp_swap [of a b] by simp

lemma entryLe_trans: "entryLe p q \<Longrightarrow> entryLe q r \<Longrightarrow> entryLe p r"
  unfolding entryLe_def using strcmp_less_trans by auto

lemma entryLe_total: "entryLe p q \<or> entryLe q p"
  unfolding entryLe_def
  using strcmp_range [of "sentenceName p" "sentenceName q"]
    strcmp_swap [of "sentenceName p" "sentenceName q"]
    strcmp_eq_0_iff [of "sentenceName p" "sentenceName q"]
  by auto

lemma insertBefore_entryLe:
  "insertBefore (sentenceName e) (termNumber e) p \<Longrightarrow> entryLe e p"
  by (auto simp: insertBefore_def entryLe_def Let_def strcmp_eq_0_iff)

lemma not_insertBefore_entryLe:
  "\<not> insertBefore (sentenceName e) (termNumber e) p \<Longrightarrow> entryLe p e"
  unfolding insertBefore_def entryLe_def Let_def
  using strcmp_range [of "sentenceName e" "sentenceName p"]
    strcmp_swap [of "sentenceName e" "sentenceName p"]
    strcmp_eq_0_iff [of "sentenceName e" "sentenceName p"]
  by auto

lemma set_insertCustomList [simp]:
  "set (insertCustomList e name n ps) = insert e (set ps)"
  by (induction ps) auto

lemma insertCustomList_split:
  "insertCustomList e name n ps
   = takeWhile (\<lambda>p. \<not> insertBefore name n p) ps @ e # dropWhile (\<lambda>p. \<not> insertBefore name n p) ps"
  by (induction ps) simp_all

lemma insertPosition_takeWhile:
  "insertPosition name n ps = length (takeWhile (\<lambda>p. \<not> insertBefore name n p) ps)"
  by (induction ps) simp_all

lemma registrySorted_insertCustomList:
  assumes "registrySorted ps"
  shows "registrySorted (insertCustomList e (sentenceName e) (termNumber e) ps)"
  using assms unfolding registrySorted_def
proof (induction ps)
  case Nil
  then show ?case by simp
next
  case (Cons p ps)
  show ?case
  proof (cases "insertBefore (sentenceName e) (termNumber e) p")
    case True
    have ep: "entryLe e p" by (rule insertBefore_entryLe [OF True])
    have "\<forall>q\<in>set ps. entryLe e q"
      using Cons.prems ep entryLe_trans by auto
    then show ?thesis using True Cons.prems ep by simp
  next
    case False
    have pe: "entryLe p e" by (rule not_insertBefore_entryLe [OF False])
    then show ?thesis using False Cons by simp
  qed
qed

lemma TinyGPSCustom_init_key [simp]:
  "sentenceName (TinyGPSCustom_init name n) = name"
  "termNumber (TinyGPSCustom_init name n) = n"
  by (simp_all add: TinyGPSCustom_init_def)

lemma customElts_begin:
  "customElts (TinyGPSCustom_begin name n s)
   = insertCustomList (TinyGPSCustom_init name n) name n (customElts s)"
  by (simp add: TinyGPSCustom_begin_def insertCustom_def)

lemma registrySorted_begin:
  "registrySorted (customElts s) \<Longrightarrow> registrySorted (customElts (TinyGPSCustom_begin name n s))"
  using registrySorted_insertCustomList [of "customElts s" "TinyGPSCustom_init name n"]
  by (simp add: customElts_begin)

lemma registrySorted_registerAll:
  "registrySorted (customElts s) \<Longrightarrow> registrySorted (customElts (registerAll regs s))"
  by (induction regs arbitrary: s) (auto simp: registrySorted_begin)

lemma registrySorted_new: "registrySorted (customElts (TinyGPSPlus_new junk))"
  by (simp add: registrySorted_def TinyGPSPlus_new_def)

text \<open>The order depends on the names and term numbers only, which parsing never changes.\<close>

lemma registrySorted_keys:
  assumes "map sentenceName ps = map sentenceName qs" and "map termNumber ps = map termNumber qs"
  shows "registrySorted ps = registrySorted qs"
proof -
  have len: "length ps = length qs" using assms(1) by (metis length_map)
  have key: "\<And>i. i < length ps \<Longrightarrow> sentenceName (ps ! i) = sentenceName (qs ! i)
                 \<and> termNumber (ps ! i) = termNumber (qs ! i)"
    using assms len by (metis nth_map)
  show ?thesis
    unfolding registrySorted_def sorted_wrt_iff_nth_less entryLe_def
    using len key by auto
qed

section \<open>The scan for the first candidate\<close>

lemma firstWithName_None_iff:
  "firstWithName name ps = None \<longleftrightarrow> name \<notin> sentenceName ` set ps"
  by (induction ps) auto

lemma findCandidates_sorted:
  assumes "registrySorted ps"
  shows "findCandidates text i ps = map_option (\<lambda>j. i + j) (firstWithName text ps)"
  using assms unfolding registrySorted_def
proof (induction ps arbitrary: i)
  case Nil
  then show ?case by simp
next
  case (Cons p ps)
  have later: "\<forall>q\<in>set ps. entryLe p q" and rest: "sorted_wrt entryLe ps"
    using Cons.prems by simp_all
  consider "strcmp (sentenceName p) text < 0" | "strcmp (sentenceName p) text > 0"
    | "strcmp (sentenceName p) text = 0"
    by linarith
  then show ?case
  proof cases
    case 1
    then have "sentenceName p \<noteq> text" using strcmp_eq_0_iff [of "sentenceName p" "text"] by auto
    then show ?thesis
      using 1 Cons.IH [OF rest, of "Suc i"]
      by (simp add: option.map_comp comp_def)
  next
    case 2
    then have ne: "sentenceName p \<noteq> text" using strcmp_eq_0_iff [of "sentenceName p" "text"] by auto
    have "text \<notin> sentenceName ` set ps"
    proof
      assume "text \<in> sentenceName ` set ps"
      then obtain q where q: "q \<in> set ps" "sentenceName q = text" by auto
      then have "entryLe p q" using later by simp
      then have "strcmp (sentenceName p) text \<le> 0"
        using q(2) ne by (auto simp: entryLe_def)
      with 2 show False by simp
    qed
    then have "firstWithName text ps = None" by (simp add: firstWithName_None_iff)
    then show ?thesis using 2 ne by simp
  next
    case 3
    then have "sentenceName p = text" by (simp add: strcmp_eq_0_iff)
    then show ?thesis using 3 by simp
  qed
qed

lemma handler_name_term:
  assumes "\<not> isChecksumTerm s" and "curTermNumber s = 0"
  shows "customCandidates (snd (endOfTermHandler now s))
         = findCandidates (cstr (term_buf s)) 0 (customElts s)"
  using assms by (simp add: endOfTermHandler_def Let_def)

section \<open>Empty fields\<close>

lemma cstr_empty_iff: "cstr buf = [] \<longleftrightarrow> buf = [] \<or> buf ! 0 = NUL"
  by (cases buf) (simp_all add: cstr_def)

lemma nativeFields_customElts [simp]:
  "nativeFields (s\<lparr> customElts := x \<rparr>) = nativeFields s"
  "nativeFields (s\<lparr> curTermNumber := a \<rparr>) = nativeFields s"
  "nativeFields (s\<lparr> curTermOffset := b \<rparr>) = nativeFields s"
  "nativeFields (s\<lparr> isChecksumTerm := d \<rparr>) = nativeFields s"
  by (simp_all add: nativeFields_def)

lemma nativeFields_beforeHandler [simp]:
  "nativeFields (beforeHandler c s) = nativeFields s"
  by (simp add: nativeFields_def)

lemma handler_empty_field:
  assumes "\<not> isChecksumTerm s" and "curTermNumber s \<noteq> 0" and "term_buf s ! 0 = NUL"
  shows "nativeFields (snd (endOfTermHandler now s)) = nativeFields s"
  using assms by (simp add: endOfTermHandler_def Let_def)

section \<open>The commit of the candidate run\<close>

lemma commitCandidates_run:
  "commitCandidates now name ps
   = map (TinyGPSCustom_commit now) (takeWhile (\<lambda>q. sentenceName q = name) ps)
     @ dropWhile (\<lambda>q. sentenceName q = name) ps"
  by (induction ps) (simp_all add: strcmp_eq_0_iff)

lemma fromCandidates_commit:
  assumes "customCandidates s = Some k"
  shows "fromCandidates (commitCandidates now) s
         = take k (customElts s)
           @ map (TinyGPSCustom_commit now) (candidateRun k (customElts s))
           @ drop (k + length (candidateRun k (customElts s))) (customElts s)"
proof (cases "drop k (customElts s)")
  case Nil
  then show ?thesis by (simp add: fromCandidates_def assms candidateRun_def)
next
  case (Cons p ps)
  have run: "candidateRun k (customElts s) = takeWhile (\<lambda>q. sentenceName q = sentenceName p) (p # ps)"
    by (simp add: candidateRun_def Cons)
  have "dropWhile (\<lambda>q. sentenceName q = sentenceName p) (p # ps)
        = drop (length (candidateRun k (customElts s))) (drop k (customElts s))"
    unfolding run Cons by (rule dropWhile_eq_drop)
  also have "\<dots> = drop (k + length (candidateRun k (customElts s))) (customElts s)"
    by (simp add: add.commute)
  finally have tail: "dropWhile (\<lambda>q. sentenceName q = sentenceName p) (p # ps)
        = drop (k + length (candidateRun k (customElts s))) (customElts s)" .
  have "fromCandidates (commitCandidates now) s
        = take k (customElts s) @ commitCandidates now (sentenceName p) (p # ps)"
    by (simp add: fromCandidates_def assms Cons)
  then show ?thesis
    by (simp only: commitCandidates_run tail run [symmetric])
qed

lemma handler_pass:
  assumes "isChecksumTerm s" and "checksumOf (term_buf s) = parity s"
  shows "customElts (snd (endOfTermHandler now s)) = fromCandidates (commitCandidates now) s"
proof -
  have "fromCandidates (commitCandidates now) (commitSentence now s') = fromCandidates (commitCandidates now) s'"
    for s' by (simp add: fromCandidates_def split: option.split list.split)
  moreover have "fromCandidates (commitCandidates now) (s'\<lparr> sentencesWithFixCount := a \<rparr>)
                 = fromCandidates (commitCandidates now) s'"
    "fromCandidates (commitCandidates now) (s'\<lparr> passedChecksumCount := b \<rparr>)
                 = fromCandidates (commitCandidates now) s'" for s' a b
    by (simp_all add: fromCandidates_def split: option.split list.split)
  ultimately show ?thesis
    using assms by (simp add: endOfTermHandler_def Let_def)
qed

lemma handler_keys:
  "map sentenceName (customElts (snd (endOfTermHandler now s))) = map sentenceName (customElts s)"
  "map termNumber (customElts (snd (endOfTermHandler now s))) = map termNumber (customElts s)"
  by (simp_all add: endOfTermHandler_def Let_def fromCandidates_map)

lemma registrySorted_encode:
  assumes "parserInv s"
  shows "registrySorted (customElts (snd (encode now c s))) = registrySorted (customElts s)"
proof -
  have off: "curTermOffset s < 15" using assms by (simp add: parserInv_def)
  consider "isTerminator c" | "c = CHR ''$''" | "ordinaryChar c" using char_cases by blast
  then show ?thesis
  proof cases
    case 1
    show ?thesis
      by (rule registrySorted_keys)
        (simp_all add: encode_terminator [OF 1 off] handler_keys)
  next
    case 2
    then show ?thesis by (simp add: encode_dollar)
  next
    case 3
    then show ?thesis by (simp add: encode_ordinary)
  qed
qed

lemma registrySorted_feed:
  "parserInv s \<Longrightarrow> registrySorted (customElts (feed now cs s)) = registrySorted (customElts s)"
  by (induction cs arbitrary: s) (simp_all add: registrySorted_encode parserInv_encode)


section \<open>Claims about the registry\<close>

text \<open>
  C7. After any sequence of registrations the registry is sorted in ascending order by
  sentence name and, among equal names, in ascending order by term number. A registration
  puts the new entry immediately in front of the first entry whose name is greater than
  the new name, or whose name is equal and whose term number is greater, and at the end
  if there is none; the entries registered before stay in their order.
\<close>

theorem registry_sorted_after_registrations:
  "registrySorted (customElts (registerAll regs (TinyGPSPlus_new junk)))
   \<and> customElts (TinyGPSCustom_begin name n s)
       = takeWhile (\<lambda>p. \<not> insertBefore name n p) (customElts s)
         @ TinyGPSCustom_init name n # dropWhile (\<lambda>p. \<not> insertBefore name n p) (customElts s)
   \<and> takeWhile (\<lambda>p. \<not> insertBefore name n p) (customElts s)
         @ dropWhile (\<lambda>p. \<not> insertBefore name n p) (customElts s) = customElts s"
proof -
  have "registrySorted (customElts (registerAll regs (TinyGPSPlus_new junk)))"
    by (rule registrySorted_registerAll [OF registrySorted_new])
  then show ?thesis
    by (simp add: customElts_begin insertCustomList_split)
qed

theorem registry_sorted_after_registrations_witness:
  "registrySorted (customElts
     (registerAll [(''GPGSA'', 3), (''GPGGA'', 9), (''GPGSA'', 1), (''GPGSA'', 3)] (TinyGPSPlus_new [])))
   \<and> map (\<lambda>p. (sentenceName p, termNumber p)) (customElts
     (registerAll [(''GPGSA'', 3), (''GPGGA'', 9), (''GPGSA'', 1), (''GPGSA'', 3)] (TinyGPSPlus_new [])))
     = [(''GPGGA'', 9), (''GPGSA'', 1), (''GPGSA'', 3), (''GPGSA'', 3)]"
proof -
  have order: "map (\<lambda>p. (sentenceName p, termNumber p)) (customElts
     (registerAll [(''GPGSA'', 3), (''GPGGA'', 9), (''GPGSA'', 1), (''GPGSA'', 3)] (TinyGPSPlus_new [])))
     = [(''GPGGA'', 9), (''GPGSA'', 1), (''GPGSA'', 3), (''GPGSA'', 3)]"
    by code_simp
  have "registrySorted (customElts
     (registerAll [(''GPGSA'', 3), (''GPGGA'', 9), (''GPGSA'', 1), (''GPGSA'', 3)] (TinyGPSPlus_new [])))"
    using registry_sorted_after_registrations
      [of "[(''GPGSA'', 3), (''GPGGA'', 9), (''GPGSA'', 1), (''GPGSA'', 3)]" "[]" "[]" 0
        "TinyGPSPlus_new []"]
    by (rule conjunct1)
  then show ?thesis using order by (rule conjI)
qed

lemma name_term_lookup:
  assumes "parserInv s" and "isTerminator c" and "\<not> isChecksumTerm s"
    and "curTermNumber s = 0" and "registrySorted (customElts s)"
  shows "customCandidates (snd (encode now c s))
           = firstWithName (cstr (term_buf (beforeHandler c s))) (customElts s)
       \<and> (customCandidates (snd (encode now c s)) = None)
           = (cstr (term_buf (beforeHandler c s)) \<notin> sentenceName ` set (customElts s))"
proof -
  have off: "curTermOffset s < 15" using assms(1) by (simp add: parserInv_def)
  have "customCandidates (snd (encode now c s))
        = customCandidates (snd (endOfTermHandler now (beforeHandler c s)))"
    by (simp add: encode_terminator [OF assms(2) off])
  also have "\<dots> = findCandidates (cstr (term_buf (beforeHandler c s))) 0 (customElts s)"
    using handler_name_term [of "beforeHandler c s" now] assms(3,4) by simp
  also have "\<dots> = firstWithName (cstr (term_buf (beforeHandler c s))) (customElts s)"
    by (simp add: findCandidates_sorted [OF assms(5)] option.map_ident)
  finally show ?thesis by (simp add: firstWithName_None_iff)
qed

text \<open>
  C9. A data term (term number not 0, not the checksum field) whose text is empty when it
  ends is not dispatched to any setter: the eight native containers, with their staged
  values and the staged hemisphere flags of the location, and the fix flag are exactly
  as they were, whatever the sentence kind and the term number.
\<close>

theorem empty_field_stages_nothing:
  assumes "parserInv s" and "isTerminator c" and "\<not> isChecksumTerm s"
    and "curTermNumber s \<noteq> 0"
    and "cstr (term_buf (beforeHandler c s)) = []"
  shows "nativeFields (snd (encode now c s)) = nativeFields s"
proof -
  have off: "curTermOffset s < 15" and len: "length (term_buf s) = 15"
    using assms(1) by (simp_all add: parserInv_def)
  have "term_buf (beforeHandler c s) \<noteq> []" using len by auto
  then have nul: "term_buf (beforeHandler c s) ! 0 = NUL"
    using assms(5) by (simp only: cstr_empty_iff) simp
  have "nativeFields (snd (endOfTermHandler now (beforeHandler c s)))
        = nativeFields (beforeHandler c s)"
    by (rule handler_empty_field) (use assms(3,4) nul in simp_all)
  then show ?thesis
    by (simp add: encode_terminator [OF assms(2) off])
qed

theorem empty_field_stages_nothing_witness:
  "curSentenceType (feed 0 ''$GPRMC,1,A,4807.038,S,'' (TinyGPSPlus_new [])) = GPS_SENTENCE_GPRMC
   \<and> curTermNumber (feed 0 ''$GPRMC,1,A,4807.038,S,'' (TinyGPSPlus_new [])) = 5
   \<and> nativeFields (snd (encode 0 CHR '','' (feed 0 ''$GPRMC,1,A,4807.038,S,'' (TinyGPSPlus_new []))))
       = nativeFields (feed 0 ''$GPRMC,1,A,4807.038,S,'' (TinyGPSPlus_new []))"
proof -
  have h1: "parserInv (feed 0 ''$GPRMC,1,A,4807.038,S,'' (TinyGPSPlus_new []))"
    by (rule parserInv_feed [OF parserInv_new])
  have h2: "isTerminator CHR '',''" by (simp add: isTerminator_def)
  have h3: "\<not> isChecksumTerm (feed 0 ''$GPRMC,1,A,4807.038,S,'' (TinyGPSPlus_new []))"
    by code_simp
  have h4: "curTermNumber (feed 0 ''$GPRMC,1,A,4807.038,S,'' (TinyGPSPlus_new [])) \<noteq> 0"
    by code_simp
  have h5: "cstr (term_buf (beforeHandler CHR '',''
              (feed 0 ''$GPRMC,1,A,4807.038,S,'' (TinyGPSPlus_new [])))) = []"
    by code_simp
  have k: "curSentenceType (feed 0 ''$GPRMC,1,A,4807.038,S,'' (TinyGPSPlus_new [])) = GPS_SENTENCE_GPRMC"
    "curTermNumber (feed 0 ''$GPRMC,1,A,4807.038,S,'' (TinyGPSPlus_new [])) = 5"
    by code_simp+
  from empty_field_stages_nothing [OF h1 h2 h3 h4 h5, of 0] k show ?thesis by simp
qed




section \<open>The terms of a sentence\<close>

lemma encode_data_step:
  assumes "parserInv s" and "\<not> isChecksumTerm s" and "curTermNumber s \<noteq> 0"
    and "c \<noteq> CHR ''$''"
  shows "curSentenceType (snd (encode now c s)) = curSentenceType s"
    and "curTermNumber (snd (encode now c s))
         = (if isTerminator c then curTermNumber s + 1 else curTermNumber s)"
proof -
  have off: "curTermOffset s < 15" using assms(1) by (simp add: parserInv_def)
  have "curSentenceType (snd (encode now c s)) = curSentenceType s
        \<and> curTermNumber (snd (encode now c s))
            = (if isTerminator c then curTermNumber s + 1 else curTermNumber s)"
  proof (cases "isTerminator c")
    case True
    have "curSentenceType (snd (endOfTermHandler now (beforeHandler c s))) = curSentenceType s"
      using assms(2,3) by (simp add: endOfTermHandler_def Let_def)
    then show ?thesis using True by (simp add: encode_terminator [OF True off])
  next
    case False
    then have "ordinaryChar c" using assms(4) by (simp add: ordinaryChar_def)
    then show ?thesis using False by (simp add: encode_ordinary)
  qed
  then show "curSentenceType (snd (encode now c s)) = curSentenceType s"
    and "curTermNumber (snd (encode now c s))
         = (if isTerminator c then curTermNumber s + 1 else curTermNumber s)"
    by simp_all
qed

lemma unat_byte_Suc:
  fixes n :: "8 word"
  assumes "unat n < 255"
  shows "unat (n + 1) = Suc (unat n)"
proof -
  have "unat n + unat (1 :: 8 word) < 2 ^ LENGTH(8)" using assms by simp
  then have "unat (n + 1) = unat n + unat (1 :: 8 word)"
    by (simp only: unat_add_lem [THEN iffD1])
  then show ?thesis by simp
qed

lemma feed_fields:
  assumes "parserInv s" and "\<not> isChecksumTerm s" and "0 < unat (curTermNumber s)"
    and "CHR ''*'' \<notin> set body" and "CHR ''$'' \<notin> set body"
    and "unat (curTermNumber s) + length (filter isTerminator body) \<le> 255"
  shows "curSentenceType (feed now body s) = curSentenceType s
       \<and> unat (curTermNumber (feed now body s))
           = unat (curTermNumber s) + length (filter isTerminator body)"
  using assms
proof (induction body arbitrary: s)
  case Nil
  then show ?case by simp
next
  case (Cons c cs)
  have c: "c \<noteq> CHR ''*''" "c \<noteq> CHR ''$''"
    and cs: "CHR ''*'' \<notin> set cs" "CHR ''$'' \<notin> set cs"
    using Cons.prems(4,5) by auto
  have nz: "curTermNumber s \<noteq> 0" using Cons.prems(3) by auto
  note step = encode_data_step [OF Cons.prems(1,2) nz c(2), of now]
  have nochk: "\<not> isChecksumTerm (snd (encode now c s))"
    using c Cons.prems(2) by (simp add: encode_isChecksumTerm [OF Cons.prems(1)])
  have num: "unat (curTermNumber (snd (encode now c s)))
             = unat (curTermNumber s) + (if isTerminator c then 1 else 0)"
  proof (cases "isTerminator c")
    case True
    then have "unat (curTermNumber s) < 255" using Cons.prems(6) by simp
    then show ?thesis using True by (simp add: step(2) unat_byte_Suc)
  next
    case False
    then show ?thesis by (simp add: step(2))
  qed
  have pos: "0 < unat (curTermNumber (snd (encode now c s)))"
    using num Cons.prems(3) by simp
  have bound: "unat (curTermNumber (snd (encode now c s))) + length (filter isTerminator cs) \<le> 255"
    using num Cons.prems(6) by (simp split: if_splits)
  from Cons.IH [OF parserInv_encode [OF Cons.prems(1)] nochk pos cs bound] step(1) num
  show ?case by simp
qed

section \<open>The text in the term buffer\<close>

lemma feed_ordinary_buf:
  assumes "parserInv s" and "\<forall>c\<in>set f. ordinaryChar c"
    and "curTermOffset s + length f \<le> 14"
  shows "term_buf (feed now f s)
           = take (curTermOffset s) (term_buf s) @ f
             @ drop (curTermOffset s + length f) (term_buf s)
       \<and> curTermOffset (feed now f s) = curTermOffset s + length f
       \<and> curTermNumber (feed now f s) = curTermNumber s
       \<and> isChecksumTerm (feed now f s) = isChecksumTerm s"
  using assms
proof (induction f arbitrary: s)
  case Nil
  then show ?case by simp
next
  case (Cons c f)
  define s' where "s' = snd (encode now c s)"
  have c: "ordinaryChar c" and f: "\<forall>c\<in>set f. ordinaryChar c" using Cons.prems(2) by simp_all
  have o: "curTermOffset s < 14" using Cons.prems(3) by simp
  have len: "length (term_buf s) = 15" using Cons.prems(1) by (simp add: parserInv_def)
  have s': "term_buf s' = (term_buf s)[curTermOffset s := c]"
    "curTermOffset s' = Suc (curTermOffset s)"
    "curTermNumber s' = curTermNumber s" "isChecksumTerm s' = isChecksumTerm s"
    using o by (simp_all add: s'_def encode_ordinary [OF c])
  have inv': "parserInv s'" unfolding s'_def by (rule parserInv_encode [OF Cons.prems(1)])
  have room: "curTermOffset s' + length f \<le> 14" using Cons.prems(3) by (simp add: s'(2))
  have t: "take (Suc (curTermOffset s)) ((term_buf s)[curTermOffset s := c])
           = take (curTermOffset s) (term_buf s) @ [c]"
    using o len by (simp add: take_Suc_conv_app_nth)
  have d: "drop (Suc (curTermOffset s + length f)) ((term_buf s)[curTermOffset s := c])
           = drop (Suc (curTermOffset s + length f)) (term_buf s)"
    by simp
  from Cons.IH [OF inv' f room]
  show ?case
    by (simp add: s'_def [symmetric] s' t d)
qed

lemma cstr_terminated:
  assumes "NUL \<notin> set f" and "length f < length b"
  shows "cstr ((f @ drop (length f) b)[length f := NUL]) = f"
proof -
  obtain y ys where d: "drop (length f) b = y # ys"
    using assms(2) by (cases "drop (length f) b") simp_all
  have "(f @ drop (length f) b)[length f := NUL] = f @ NUL # ys"
    by (simp add: d list_update_append)
  moreover have "\<forall>x\<in>set f. x \<noteq> NUL" using assms(1) by auto
  ultimately show ?thesis
    by (simp add: cstr_def takeWhile_append2)
qed

lemma handler_name_type:
  assumes "\<not> isChecksumTerm s" and "curTermNumber s = 0"
  shows "curSentenceType (snd (endOfTermHandler now s))
         = (if cstr (term_buf s) = ''GPRMC'' \<or> cstr (term_buf s) = ''GNRMC''
            then GPS_SENTENCE_GPRMC
            else if cstr (term_buf s) = ''GPGGA'' \<or> cstr (term_buf s) = ''GNGGA''
            then GPS_SENTENCE_GPGGA
            else GPS_SENTENCE_OTHER)"
  using assms by (simp add: endOfTermHandler_def Let_def strcmp_eq_0_iff)

lemma recognized_name_chars:
  assumes "isRMCName name \<or> isGGAName name"
  shows "\<forall>c\<in>set name. ordinaryChar c" and "NUL \<notin> set name" and "length name = 5"
proof -
  consider "name = ''GPRMC''" | "name = ''GNRMC''" | "name = ''GPGGA''" | "name = ''GNGGA''"
    using assms by (auto simp: isRMCName_def isGGAName_def)
  then have "(\<forall>c\<in>set name. ordinaryChar c) \<and> NUL \<notin> set name \<and> length name = 5"
    by cases (simp_all add: ordinaryChar_def isTerminator_def CR_def LF_def NUL_def)
  then show "\<forall>c\<in>set name. ordinaryChar c" and "NUL \<notin> set name" and "length name = 5"
    by simp_all
qed

lemma name_term:
  assumes "parserInv s" and "\<not> isChecksumTerm s" and "curTermNumber s = 0"
    and "curTermOffset s = 0" and "isRMCName name \<or> isGGAName name" and "isTerminator d"
  shows "curSentenceType (snd (encode now d (feed now name s)))
           = (if isRMCName name then GPS_SENTENCE_GPRMC else GPS_SENTENCE_GPGGA)"
    and "curTermNumber (snd (encode now d (feed now name s))) = 1"
proof -
  note ord = recognized_name_chars(1) [OF assms(5)]
    and nul = recognized_name_chars(2) [OF assms(5)]
    and l5 = recognized_name_chars(3) [OF assms(5)]
  have len: "length (term_buf s) = 15" using assms(1) by (simp add: parserInv_def)
  have room: "curTermOffset s + length name \<le> 14" using assms(4) l5 by simp
  define s' where "s' = feed now name s"
  have inv': "parserInv s'" unfolding s'_def by (rule parserInv_feed [OF assms(1)])
  then have off': "curTermOffset s' < 15" by (simp add: parserInv_def)
  have s': "term_buf s' = name @ drop (length name) (term_buf s)"
    "curTermOffset s' = length name" "curTermNumber s' = 0" "\<not> isChecksumTerm s'"
    using feed_ordinary_buf [OF assms(1) ord room, of now] assms(2,3,4)
    by (simp_all add: s'_def)
  have tx: "cstr ((term_buf s')[curTermOffset s' := NUL]) = name"
    using cstr_terminated [OF nul, of "term_buf s"] len l5 by (simp add: s')
  have h: "curSentenceType (snd (endOfTermHandler now (beforeHandler d s')))
           = (if isRMCName name then GPS_SENTENCE_GPRMC else GPS_SENTENCE_GPGGA)"
  proof -
    have "curSentenceType (snd (endOfTermHandler now (beforeHandler d s')))
          = (if name = ''GPRMC'' \<or> name = ''GNRMC'' then GPS_SENTENCE_GPRMC
             else if name = ''GPGGA'' \<or> name = ''GNGGA'' then GPS_SENTENCE_GPGGA
             else GPS_SENTENCE_OTHER)"
      using handler_name_type [of "beforeHandler d s'" now] s'(3,4) by (simp add: tx)
    then show ?thesis
      using assms(5) by (auto simp: isRMCName_def isGGAName_def)
  qed
  show "curSentenceType (snd (encode now d (feed now name s)))
           = (if isRMCName name then GPS_SENTENCE_GPRMC else GPS_SENTENCE_GPGGA)"
    and "curTermNumber (snd (encode now d (feed now name s))) = 1"
    using h s'(3)
    by (simp_all add: s'_def [symmetric] encode_terminator [OF assms(6) off'])
qed

section \<open>The commits of a sentence that passes\<close>

lemma handler_pass_flags:
  assumes "isChecksumTerm s" and "checksumOf (term_buf s) = parity s"
  shows "time_updated (time (snd (endOfTermHandler now s)))
           = (curSentenceType s \<noteq> GPS_SENTENCE_OTHER \<or> time_updated (time s))"
    and "date_updated (date (snd (endOfTermHandler now s)))
           = (curSentenceType s = GPS_SENTENCE_GPRMC \<or> date_updated (date s))"
    and "loc_updated (location (snd (endOfTermHandler now s)))
           = (curSentenceType s \<noteq> GPS_SENTENCE_OTHER \<and> sentenceHasFix s
              \<or> loc_updated (location s))"
    and "dec_updated (speed (snd (endOfTermHandler now s)))
           = (curSentenceType s = GPS_SENTENCE_GPRMC \<and> sentenceHasFix s \<or> dec_updated (speed s))"
    and "dec_updated (course (snd (endOfTermHandler now s)))
           = (curSentenceType s = GPS_SENTENCE_GPRMC \<and> sentenceHasFix s \<or> dec_updated (course s))"
    and "dec_updated (altitude (snd (endOfTermHandler now s)))
           = (curSentenceType s = GPS_SENTENCE_GPGGA \<and> sentenceHasFix s
              \<or> dec_updated (altitude s))"
    and "int_updated (satellites (snd (endOfTermHandler now s)))
           = (curSentenceType s = GPS_SENTENCE_GPGGA \<or> int_updated (satellites s))"
    and "dec_updated (hdop (snd (endOfTermHandler now s)))
           = (curSentenceType s = GPS_SENTENCE_GPGGA \<or> dec_updated (hdop s))"
  using assms
  by (simp_all add: endOfTermHandler_def commitSentence_def Let_def TinyGPSTime_commit_def
      TinyGPSDate_commit_def TinyGPSLocation_commit_def TinyGPSDecimal_commit_def
      TinyGPSInteger_commit_def split: sentence_type.split)

lemma updated_committedView:
  assumes "committedView s = committedView s'"
  shows "loc_updated (location s) = loc_updated (location s')"
    and "date_updated (date s) = date_updated (date s')"
    and "time_updated (time s) = time_updated (time s')"
    and "dec_updated (speed s) = dec_updated (speed s')"
    and "dec_updated (course s) = dec_updated (course s')"
    and "dec_updated (altitude s) = dec_updated (altitude s')"
    and "int_updated (satellites s) = int_updated (satellites s')"
    and "dec_updated (hdop s) = dec_updated (hdop s')"
proof -
  have l: "\<And>x. loc_updated x = loc_updated (committedLocation x)"
    and d: "\<And>x. date_updated x = date_updated (committedDate x)"
    and t: "\<And>x. time_updated x = time_updated (committedTime x)"
    and c: "\<And>x. dec_updated x = dec_updated (committedDecimal x)"
    and i: "\<And>x. int_updated x = int_updated (committedInteger x)"
    by (simp_all add: committedLocation_def committedDate_def committedTime_def
        committedDecimal_def committedInteger_def)
  have eq: "committedLocation (location s) = committedLocation (location s')"
    "committedDate (date s) = committedDate (date s')"
    "committedTime (time s) = committedTime (time s')"
    "committedDecimal (speed s) = committedDecimal (speed s')"
    "committedDecimal (course s) = committedDecimal (course s')"
    "committedDecimal (altitude s) = committedDecimal (altitude s')"
    "committedInteger (satellites s) = committedInteger (satellites s')"
    "committedDecimal (hdop s) = committedDecimal (hdop s')"
    using assms by (simp_all add: committedView_def)
  show "loc_updated (location s) = loc_updated (location s')"
    by (subst l, subst l [of "location s'"]) (simp only: eq)
  show "date_updated (date s) = date_updated (date s')"
    by (subst d, subst d [of "date s'"]) (simp only: eq)
  show "time_updated (time s) = time_updated (time s')"
    by (subst t, subst t [of "time s'"]) (simp only: eq)
  show "dec_updated (speed s) = dec_updated (speed s')"
    by (subst c, subst c [of "speed s'"]) (simp only: eq)
  show "dec_updated (course s) = dec_updated (course s')"
    by (subst c, subst c [of "course s'"]) (simp only: eq)
  show "dec_updated (altitude s) = dec_updated (altitude s')"
    by (subst c, subst c [of "altitude s'"]) (simp only: eq)
  show "int_updated (satellites s) = int_updated (satellites s')"
    by (subst i, subst i [of "satellites s'"]) (simp only: eq)
  show "dec_updated (hdop s) = dec_updated (hdop s')"
    by (subst c, subst c [of "hdop s'"]) (simp only: eq)
qed

lemma feed_snoc: "feed now (xs @ [c]) s = snd (encode now c (feed now xs s))"
  by (simp add: feed_append)

lemma sentence_staging:
  assumes "parserInv s0" and "CHR ''*'' \<notin> set body" and "\<forall>c\<in>set cs. ordinaryChar c"
  shows "committedView (feed now (CHR ''$'' # body @ CHR ''*'' # cs) s0) = committedView s0"
proof -
  define a where "a = snd (encode now CHR ''$'' s0)"
  define b where "b = feed now body a"
  define d where "d = snd (encode now CHR ''*'' b)"
  have whole: "feed now (CHR ''$'' # body @ CHR ''*'' # cs) s0 = feed now cs d"
    by (simp add: feed_append a_def b_def d_def)
  have inv_a: "parserInv a" unfolding a_def by (rule parserInv_encode [OF assms(1)])
  have a: "\<not> isChecksumTerm a" "committedView a = committedView s0"
    by (simp_all add: a_def encode_dollar)
  have inv_b: "parserInv b" unfolding b_def by (rule parserInv_feed [OF inv_a])
  have b: "\<not> isChecksumTerm b" "committedView b = committedView s0"
    using feed_staging [OF inv_a a(1) assms(2), of now] a(2) by (simp_all add: b_def)
  have inv_d: "parserInv d" unfolding d_def by (rule parserInv_encode [OF inv_b])
  have d: "isChecksumTerm d" "committedView d = committedView s0"
    using encode_staging [OF inv_b, of "CHR ''*''" now] b
    by (simp_all add: d_def encode_isChecksumTerm [OF inv_b] isTerminator_def)
  show ?thesis
    unfolding whole using feed_checksum_text [OF inv_d d(1) assms(3), of now] d(2) by simp
qed

lemma field_text_markers:
  assumes "\<forall>c\<in>set xs. c = CHR '','' \<or> ordinaryChar c"
  shows "CHR ''*'' \<notin> set xs" and "CHR ''$'' \<notin> set xs" and "CR \<notin> set xs" and "LF \<notin> set xs"
    and "filter isTerminator xs = filter (\<lambda>c. c = CHR '','') xs"
proof -
  have each: "\<And>c. c \<in> set xs \<Longrightarrow>
      c \<noteq> CHR ''*'' \<and> c \<noteq> CHR ''$'' \<and> c \<noteq> CR \<and> c \<noteq> LF \<and> isTerminator c = (c = CHR '','')"
  proof -
    fix c assume "c \<in> set xs"
    then have "c = CHR '','' \<or> ordinaryChar c" using assms by simp
    then show "c \<noteq> CHR ''*'' \<and> c \<noteq> CHR ''$'' \<and> c \<noteq> CR \<and> c \<noteq> LF \<and> isTerminator c = (c = CHR '','')"
    proof
      assume "c = CHR '',''"
      then show ?thesis by (simp add: isTerminator_def CR_def LF_def)
    next
      assume "ordinaryChar c"
      then show ?thesis by (simp add: ordinaryChar_def isTerminator_def)
    qed
  qed
  show "CHR ''*'' \<notin> set xs" using each by blast
  show "CHR ''$'' \<notin> set xs" using each by blast
  show "CR \<notin> set xs" using each by blast
  show "LF \<notin> set xs" using each by blast
  show "filter isTerminator xs = filter (\<lambda>c. c = CHR '','') xs"
    by (rule filter_cong [OF refl]) (simp add: each)
qed


lemma sentence_kind:
  assumes inv: "parserInv s0"
    and kind: "isRMCName name \<or> isGGAName name"
    and shape: "rest = [] \<or> hd rest = CHR '',''"
    and chars: "\<forall>c\<in>set rest. c = CHR '','' \<or> ordinaryChar c"
    and count: "length (filter (\<lambda>c. c = CHR '','') rest) \<le> 255"
  shows "curSentenceType (feed now (CHR ''$'' # name @ rest @ [CHR ''*'']) s0)
         = (if isRMCName name then GPS_SENTENCE_GPRMC else GPS_SENTENCE_GPGGA)"
proof -
  define a where "a = snd (encode now CHR ''$'' s0)"
  have inv_a: "parserInv a" unfolding a_def by (rule parserInv_encode [OF inv])
  have a: "\<not> isChecksumTerm a" "curTermNumber a = 0" "curTermOffset a = 0"
    by (simp_all add: a_def encode_dollar)
  have star: "isTerminator CHR ''*''" and comma: "isTerminator CHR '',''"
    by (simp_all add: isTerminator_def)
  show ?thesis
  proof (cases rest)
    case Nil
    have "feed now (CHR ''$'' # name @ rest @ [CHR ''*'']) s0
          = snd (encode now CHR ''*'' (feed now name a))"
      by (simp add: Nil feed_append a_def)
    then show ?thesis
      by (simp add: name_term(1) [OF inv_a a(1,2,3) kind star])
  next
    case (Cons r rest')
    then have r: "r = CHR '',''" using shape by simp
    define b where "b = snd (encode now CHR '','' (feed now name a))"
    define e where "e = feed now rest' b"
    have whole: "feed now (CHR ''$'' # name @ rest @ [CHR ''*'']) s0
                 = snd (encode now CHR ''*'' e)"
      by (simp add: Cons r feed_append a_def b_def e_def)
    have inv_n: "parserInv (feed now name a)" by (rule parserInv_feed [OF inv_a])
    have inv_b: "parserInv b" unfolding b_def by (rule parserInv_encode [OF inv_n])
    have b: "curSentenceType b = (if isRMCName name then GPS_SENTENCE_GPRMC else GPS_SENTENCE_GPGGA)"
      "curTermNumber b = 1"
      using name_term [OF inv_a a(1,2,3) kind comma, of now] by (simp_all only: b_def)
    have b3: "\<not> isChecksumTerm b"
      by (simp add: b_def encode_isChecksumTerm [OF inv_n] isTerminator_def)
    have chars': "\<forall>c\<in>set rest'. c = CHR '','' \<or> ordinaryChar c" using chars Cons by simp
    note no_star = field_text_markers(1) [OF chars'] and no_dollar = field_text_markers(2) [OF chars']
    have "length (filter (\<lambda>c. c = CHR '','') rest) = Suc (length (filter (\<lambda>c. c = CHR '','') rest'))"
      by (simp add: Cons r)
    then have "Suc (length (filter isTerminator rest')) \<le> 255"
      using count by (simp only: field_text_markers(5) [OF chars'])
    then have bound: "unat (curTermNumber b) + length (filter isTerminator rest') \<le> 255"
      by (simp add: b(2))
    have pos: "0 < unat (curTermNumber b)" by (simp add: b(2))
    have e: "curSentenceType e = curSentenceType b"
      "unat (curTermNumber e) = unat (curTermNumber b) + length (filter isTerminator rest')"
      using feed_fields [OF inv_b b3 pos no_star no_dollar bound, of now] by (simp_all add: e_def)
    have inv_e: "parserInv e" unfolding e_def by (rule parserInv_feed [OF inv_b])
    have e3: "\<not> isChecksumTerm e"
      using feed_staging [OF inv_b b3 no_star, of now] by (simp add: e_def)
    have "0 < unat (curTermNumber e)" using e(2) pos by simp
    then have nz: "curTermNumber e \<noteq> 0" by (metis unat_0 less_irrefl)
    have "curSentenceType (snd (encode now CHR ''*'' e)) = curSentenceType e"
      by (rule encode_data_step(1) [OF inv_e e3 nz]) simp
    then show ?thesis unfolding whole by (simp add: e(1) b(1))
  qed
qed

lemma sentence_commit_flags:
  assumes inv: "parserInv s0"
    and kind: "isRMCName name \<or> isGGAName name"
    and shape: "rest = [] \<or> hd rest = CHR '',''"
    and chars: "\<forall>c\<in>set rest. c = CHR '','' \<or> ordinaryChar c"
    and count: "length (filter (\<lambda>c. c = CHR '','') rest) \<le> 255"
    and digits: "ordinaryChar h1" "ordinaryChar h2"
    and sum: "checksumOf [h1, h2] = xorsum (name @ rest)"
    and line_end: "t = CR \<or> t = LF"
  shows "fst (encode now t (feed now (CHR ''$'' # name @ rest @ CHR ''*'' # [h1, h2]) s0))
   \<and> time_updated (time (snd (encode now t (feed now (CHR ''$'' # name @ rest @ CHR ''*'' # [h1, h2]) s0))))
   \<and> loc_updated (location (snd (encode now t (feed now (CHR ''$'' # name @ rest @ CHR ''*'' # [h1, h2]) s0))))
       = (sentenceHasFix (feed now (CHR ''$'' # name @ rest @ CHR ''*'' # [h1, h2]) s0)
          \<or> loc_updated (location s0))
   \<and> (if isRMCName name
       then date_updated (date (snd (encode now t (feed now (CHR ''$'' # name @ rest @ CHR ''*'' # [h1, h2]) s0))))
          \<and> dec_updated (speed (snd (encode now t (feed now (CHR ''$'' # name @ rest @ CHR ''*'' # [h1, h2]) s0))))
              = (sentenceHasFix (feed now (CHR ''$'' # name @ rest @ CHR ''*'' # [h1, h2]) s0)
                 \<or> dec_updated (speed s0))
          \<and> dec_updated (course (snd (encode now t (feed now (CHR ''$'' # name @ rest @ CHR ''*'' # [h1, h2]) s0))))
              = (sentenceHasFix (feed now (CHR ''$'' # name @ rest @ CHR ''*'' # [h1, h2]) s0)
                 \<or> dec_updated (course s0))
       else int_updated (satellites (snd (encode now t (feed now (CHR ''$'' # name @ rest @ CHR ''*'' # [h1, h2]) s0))))
          \<and> dec_updated (hdop (snd (encode now t (feed now (CHR ''$'' # name @ rest @ CHR ''*'' # [h1, h2]) s0))))
          \<and> dec_updated (altitude (snd (encode now t (feed now (CHR ''$'' # name @ rest @ CHR ''*'' # [h1, h2]) s0))))
              = (sentenceHasFix (feed now (CHR ''$'' # name @ rest @ CHR ''*'' # [h1, h2]) s0)
                 \<or> dec_updated (altitude s0)))"
proof -
  define w where "w = feed now (CHR ''$'' # name @ rest @ [CHR ''*'']) s0"
  define s1 where "s1 = feed now (CHR ''$'' # name @ rest @ CHR ''*'' # [h1, h2]) s0"
  define K where "K = (if isRMCName name then GPS_SENTENCE_GPRMC else GPS_SENTENCE_GPGGA)"
  have split_w: "s1 = feed now [h1, h2] w"
    unfolding s1_def w_def feed_append [symmetric] by simp
  define p where "p = feed now (CHR ''$'' # name @ rest) s0"
  have w_last: "w = snd (encode now CHR ''*'' p)"
    unfolding w_def p_def feed_snoc [symmetric] by simp
  have inv_p: "parserInv p" unfolding p_def by (rule parserInv_feed [OF inv])
  then have off_p: "curTermOffset p < 15" by (simp add: parserInv_def)
  have star: "isTerminator CHR ''*''" by (simp add: isTerminator_def)
  have inv_w: "parserInv w" unfolding w_def by (rule parserInv_feed [OF inv])
  have w: "isChecksumTerm w" "curTermOffset w = 0"
    by (simp_all add: w_last encode_terminator_frame [OF star off_p])
  have w3: "curSentenceType w = K"
    unfolding w_def K_def by (rule sentence_kind [OF inv kind shape chars count])
  have ord2: "\<forall>c\<in>set [h1, h2]. ordinaryChar c" using digits by simp
  have inv_1: "parserInv s1" unfolding s1_def by (rule parserInv_feed [OF inv])
  then have off_1: "curTermOffset s1 < 15" and len_w: "length (term_buf w) = 15"
    using inv_w by (simp_all add: parserInv_def)
  have s1: "isChecksumTerm s1" "curSentenceType s1 = K"
    using feed_checksum_text [OF inv_w w(1) ord2, of now] w3 by (simp_all add: split_w)
  have buf: "term_buf s1 = [h1, h2] @ drop 2 (term_buf w)" "curTermOffset s1 = 2"
    using feed_ordinary_buf [OF inv_w ord2, of now] w(2) by (simp_all add: split_w numeral_2_eq_2)
  have chk: "checksumOf (term_buf (beforeHandler t s1)) = checksumOf [h1, h2]"
    by (simp add: buf checksumOf_def)
  have name_chars: "\<forall>c\<in>set name. c = CHR '','' \<or> ordinaryChar c"
    using recognized_name_chars(1) [OF kind] by simp
  have body_chars: "\<forall>c\<in>set (name @ rest). c = CHR '','' \<or> ordinaryChar c"
    using name_chars chars by auto
  note marks = field_text_markers [OF body_chars]
  have t_comma: "t \<noteq> CHR '',''" using line_end by (auto simp: CR_def LF_def)
  have "filter (\<lambda>c. c \<noteq> CR \<and> c \<noteq> LF) (name @ rest) = name @ rest"
    by (rule filter_True) (use marks(3,4) in auto)
  then have par: "parity (beforeHandler t s1) = xorsum (name @ rest)"
    using sentence_parity [OF inv marks(1,2) ord2, of t now] t_comma
    by (simp add: s1_def)
  have term_t: "isTerminator t" using line_end by (auto simp: isTerminator_def)
  have match: "checksumOf (term_buf (beforeHandler t s1)) = parity (beforeHandler t s1)"
    by (simp only: chk par sum)
  have accepted: "fst (encode now t s1)"
    by (simp add: encode_fst [OF off_1] term_t s1(1) match del: beforeHandler_simps)
  have old: "committedView s1 = committedView s0"
    using sentence_staging [OF inv marks(1) ord2, of now] by (simp add: s1_def)
  note old_flags = updated_committedView [OF old]
  have chk_b: "isChecksumTerm (beforeHandler t s1)" using s1(1) by simp
  note flags = handler_pass_flags [OF chk_b match, of now]
  have K_cases: "K \<noteq> GPS_SENTENCE_OTHER" "(K = GPS_SENTENCE_GPRMC) = isRMCName name"
    "(K = GPS_SENTENCE_GPGGA) = (\<not> isRMCName name)"
    by (simp_all add: K_def)
  have after: "time (snd (encode now t s1)) = time (snd (endOfTermHandler now (beforeHandler t s1)))"
    "date (snd (encode now t s1)) = date (snd (endOfTermHandler now (beforeHandler t s1)))"
    "location (snd (encode now t s1)) = location (snd (endOfTermHandler now (beforeHandler t s1)))"
    "speed (snd (encode now t s1)) = speed (snd (endOfTermHandler now (beforeHandler t s1)))"
    "course (snd (encode now t s1)) = course (snd (endOfTermHandler now (beforeHandler t s1)))"
    "altitude (snd (encode now t s1)) = altitude (snd (endOfTermHandler now (beforeHandler t s1)))"
    "satellites (snd (encode now t s1)) = satellites (snd (endOfTermHandler now (beforeHandler t s1)))"
    "hdop (snd (encode now t s1)) = hdop (snd (endOfTermHandler now (beforeHandler t s1)))"
    by (simp_all add: encode_terminator [OF term_t off_1])
  show ?thesis
    unfolding s1_def [symmetric]
    using accepted
    by (simp add: after flags s1(2) K_cases old_flags)
qed

section \<open>The term in progress\<close>

lemma cstr_cut: "cstr (xs @ NUL # ys) = cstr xs"
proof (cases "\<forall>x\<in>set xs. x \<noteq> NUL")
  case True
  have a: "takeWhile (\<lambda>c. c \<noteq> NUL) (xs @ NUL # ys) = xs @ takeWhile (\<lambda>c. c \<noteq> NUL) (NUL # ys)"
    by (rule takeWhile_append2) (use True in simp)
  have b: "takeWhile (\<lambda>c. c \<noteq> NUL) xs = xs"
    by (rule takeWhile_eq_all_conv [THEN iffD2]) (rule True)
  show ?thesis unfolding cstr_def a b by simp
next
  case False
  then obtain x where "x \<in> set xs" "\<not> x \<noteq> NUL" by blast
  then show ?thesis unfolding cstr_def by (rule takeWhile_append1)
qed

text \<open>Ordinary characters fill the term buffer up to its fourteenth byte.\<close>

lemma ordinary_step_text:
  assumes "parserInv s'" and "ordinaryChar x"
    and "curTermOffset s' = min 14 (length f)"
    and "take (min 14 (length f)) (term_buf s') = take 14 f"
  shows "curTermOffset (snd (encode now x s')) = min 14 (length (f @ [x]))
       \<and> take (min 14 (length (f @ [x]))) (term_buf (snd (encode now x s'))) = take 14 (f @ [x])"
proof -
  have len: "length (term_buf s') = 15" using assms(1) by (simp add: parserInv_def)
  show ?thesis
  proof (cases "length f < 14")
    case True
    then have off: "curTermOffset s' = length f" using assms(3) by simp
    have pre: "take (length f) (term_buf s') = f" using assms(4) True by simp
    have t: "take (Suc (length f)) ((term_buf s')[length f := x]) = f @ [x]"
      using True len by (simp add: take_Suc_conv_app_nth pre)
    have m: "min 14 (length (f @ [x])) = Suc (length f)" "take 14 (f @ [x]) = f @ [x]"
      using True by simp_all
    have o: "curTermOffset (snd (encode now x s')) = Suc (length f)"
      and b: "term_buf (snd (encode now x s')) = (term_buf s')[length f := x]"
      using True by (simp_all add: encode_ordinary [OF assms(2)] off)
    show ?thesis
      unfolding m o b using t by simp
  next
    case False
    then have off: "curTermOffset s' = 14" using assms(3) by simp
    have "take 14 (term_buf s') = take 14 f" using assms(4) False by simp
    then show ?thesis
      using False by (simp add: encode_ordinary [OF assms(2)] off min_def)
  qed
qed

lemma feed_term_text:
  assumes "parserInv s" and "curTermOffset s = 0" and "\<forall>x\<in>set f. ordinaryChar x"
  shows "curTermOffset (feed now f s) = min 14 (length f)
       \<and> take (min 14 (length f)) (term_buf (feed now f s)) = take 14 f"
  using assms(3)
proof (induction f rule: rev_induct)
  case Nil
  then show ?case using assms(2) by simp
next
  case (snoc x f)
  have x: "ordinaryChar x" and f: "\<forall>x\<in>set f. ordinaryChar x" using snoc.prems by simp_all
  have inv': "parserInv (feed now f s)" by (rule parserInv_feed [OF assms(1)])
  from ordinary_step_text [OF inv' x, of f now] snoc.IH [OF f]
  show ?case by (simp only: feed_snoc)
qed

lemma feed_term_frame:
  assumes "\<forall>x\<in>set f. ordinaryChar x"
  shows "curTermNumber (feed now f s) = curTermNumber s"
    and "isChecksumTerm (feed now f s) = isChecksumTerm s"
    and "curSentenceType (feed now f s) = curSentenceType s"
    and "sentenceHasFix (feed now f s) = sentenceHasFix s"
    and "customElts (feed now f s) = customElts s"
    and "customCandidates (feed now f s) = customCandidates s"
proof -
  have "curTermNumber (feed now f s) = curTermNumber s
      \<and> isChecksumTerm (feed now f s) = isChecksumTerm s
      \<and> curSentenceType (feed now f s) = curSentenceType s
      \<and> sentenceHasFix (feed now f s) = sentenceHasFix s
      \<and> customElts (feed now f s) = customElts s
      \<and> customCandidates (feed now f s) = customCandidates s"
    using assms by (induction f arbitrary: s) (simp_all add: encode_ordinary)
  then show "curTermNumber (feed now f s) = curTermNumber s"
    and "isChecksumTerm (feed now f s) = isChecksumTerm s"
    and "curSentenceType (feed now f s) = curSentenceType s"
    and "sentenceHasFix (feed now f s) = sentenceHasFix s"
    and "customElts (feed now f s) = customElts s"
    and "customCandidates (feed now f s) = customCandidates s"
    by simp_all
qed

text \<open>The text that the handler reads when the term ends: the field as the buffer holds it.\<close>

lemma terminated_term_text:
  assumes "parserInv s" and "curTermOffset s = 0" and "\<forall>x\<in>set f. ordinaryChar x"
  shows "cstr ((term_buf (feed now f s))[curTermOffset (feed now f s) := NUL]) = cstr (take 14 f)"
    and "((term_buf (feed now f s))[curTermOffset (feed now f s) := NUL]) ! 0
         = (case f of [] \<Rightarrow> NUL | x # _ \<Rightarrow> x)"
proof -
  define s' where "s' = feed now f s"
  define n where "n = min 14 (length f)"
  have inv': "parserInv s'" unfolding s'_def by (rule parserInv_feed [OF assms(1)])
  then have len: "length (term_buf s') = 15" by (simp add: parserInv_def)
  have t: "curTermOffset s' = n" "take n (term_buf s') = take 14 f"
    using feed_term_text [OF assms, of now] by (simp_all add: s'_def n_def)
  have n: "n < length (term_buf s')" using len by (simp add: n_def)
  have shape: "(term_buf s')[n := NUL] = take 14 f @ NUL # drop (Suc n) (term_buf s')"
    using upd_conv_take_nth_drop [OF n, of NUL] by (simp add: t(2))
  show "cstr ((term_buf (feed now f s))[curTermOffset (feed now f s) := NUL]) = cstr (take 14 f)"
    unfolding s'_def [symmetric] t(1) shape by (rule cstr_cut)
  show "((term_buf (feed now f s))[curTermOffset (feed now f s) := NUL]) ! 0
         = (case f of [] \<Rightarrow> NUL | x # _ \<Rightarrow> x)"
    unfolding s'_def [symmetric] t(1) shape by (cases f) simp_all
qed

section \<open>The parser state as a function of the input\<close>

lemma sinceDollar_simps [simp]:
  "sinceDollar [] = []"
  "sinceDollar (cs @ [x]) = (if x = CHR ''$'' then [] else sinceDollar cs @ [x])"
  by (simp_all add: sinceDollar_def)

lemma currentField_simps [simp]:
  "currentField [] = []"
  "currentField (u @ [x]) = (if isTerminator x then [] else currentField u @ [x])"
  by (simp_all add: currentField_def)

lemma inChecksumField_simps [simp]:
  "inChecksumField [] = False"
  "inChecksumField (u @ [x]) = (if isTerminator x then x = CHR ''*'' else inChecksumField u)"
  by (simp_all add: inChecksumField_def)

lemma coveredChars_Nil [simp]: "coveredChars [] = []"
  by (simp add: coveredChars_def)

lemma coveredChars_snoc:
  "coveredChars (u @ [x])
   = coveredChars u
     @ (if x = CHR '','' \<or> (\<not> isTerminator x \<and> \<not> inChecksumField u) then [x] else [])"
proof -
  have "map (\<lambda>k. if (u @ [x]) ! k = CHR '',''
                    \<or> (\<not> isTerminator ((u @ [x]) ! k) \<and> \<not> inChecksumField (take k (u @ [x])))
                 then [(u @ [x]) ! k] else []) [0..<length u]
        = map (\<lambda>k. if u ! k = CHR '','' \<or> (\<not> isTerminator (u ! k) \<and> \<not> inChecksumField (take k u))
                 then [u ! k] else []) [0..<length u]"
    by (rule map_cong [OF refl]) (simp add: nth_append)
  note m = this
  have l: "[0..<length (u @ [x])] = [0..<length u] @ [length u]" by simp
  show ?thesis
    unfolding coveredChars_def l map_append concat_append m by simp
qed

lemma xorsum_append: "xorsum (xs @ ys) = xorsum xs XOR xorsum ys"
  by (induction xs) (simp_all add: xor.assoc)

lemma input_state:
  assumes "parserInv s0" and "parity s0 = 0" and "\<not> isChecksumTerm s0" and "curTermOffset s0 = 0"
  shows "isChecksumTerm (feed now cs s0) = inChecksumField (sinceDollar cs)
       \<and> parity (feed now cs s0) = xorsum (coveredChars (sinceDollar cs))
       \<and> curTermOffset (feed now cs s0) = min 14 (length (currentField (sinceDollar cs)))
       \<and> take (min 14 (length (currentField (sinceDollar cs)))) (term_buf (feed now cs s0))
           = take 14 (currentField (sinceDollar cs))"
proof (induction cs rule: rev_induct)
  case Nil
  then show ?case using assms by simp
next
  case (snoc x cs)
  define s where "s = feed now cs s0"
  define u where "u = sinceDollar cs"
  have inv: "parserInv s" unfolding s_def by (rule parserInv_feed [OF assms(1)])
  then have off: "curTermOffset s < 15" by (simp add: parserInv_def)
  have ih: "isChecksumTerm s = inChecksumField u" "parity s = xorsum (coveredChars u)"
    "curTermOffset s = min 14 (length (currentField u))"
    "take (min 14 (length (currentField u))) (term_buf s) = take 14 (currentField u)"
    using snoc.IH by (simp_all add: s_def u_def)
  consider "isTerminator x" | "x = CHR ''$''" | "ordinaryChar x" using char_cases by blast
  then show ?case
  proof cases
    case 1
    then have nd: "x \<noteq> CHR ''$''" by (auto simp: isTerminator_def CR_def LF_def)
    show ?thesis
      unfolding feed_snoc s_def [symmetric]
      using 1 nd
      by (simp add: u_def [symmetric] encode_terminator_frame [OF 1 off] coveredChars_snoc
          xorsum_append ih(2))
  next
    case 2
    then show ?thesis
      unfolding feed_snoc s_def [symmetric] by (simp add: encode_dollar)
  next
    case 3
    then have nt: "\<not> isTerminator x" and nd: "x \<noteq> CHR ''$''" and nc: "x \<noteq> CHR '',''"
      by (auto simp: ordinaryChar_def isTerminator_def)
    have a: "isChecksumTerm (snd (encode now x s)) = inChecksumField u"
      and b: "parity (snd (encode now x s))
              = xorsum (coveredChars u @ (if \<not> inChecksumField u then [x] else []))"
      by (simp_all add: encode_ordinary [OF 3] ih(1,2) xorsum_append)
    note t = ordinary_step_text [OF inv 3 ih(3,4), of now]
    show ?thesis
      unfolding feed_snoc s_def [symmetric]
      using nt nd nc a b t
      by (simp add: u_def [symmetric] coveredChars_snoc)
  qed
qed

section \<open>The lookup of the sentence name\<close>

lemma name_lookup_input:
  assumes "parserInv s0" and "registrySorted (customElts s0)"
    and "\<forall>x\<in>set name. ordinaryChar x" and "isTerminator c"
  shows "customCandidates (snd (encode now c (feed now (CHR ''$'' # name) s0)))
         = firstWithName (cstr (take 14 name)) (customElts s0)"
proof -
  define a where "a = snd (encode now CHR ''$'' s0)"
  define s where "s = feed now name a"
  have whole: "feed now (CHR ''$'' # name) s0 = s" by (simp add: s_def a_def)
  have a: "parserInv a" "curTermOffset a = 0" "curTermNumber a = 0" "\<not> isChecksumTerm a"
    "customElts a = customElts s0"
    using assms(1) by (simp_all add: a_def encode_dollar parserInv_def)
  have inv: "parserInv s" unfolding s_def by (rule parserInv_feed [OF a(1)])
  have fr: "curTermNumber s = 0" "\<not> isChecksumTerm s" "customElts s = customElts s0"
    using feed_term_frame [OF assms(3), of now a] a by (simp_all add: s_def)
  have tx: "cstr (term_buf (beforeHandler c s)) = cstr (take 14 name)"
    using terminated_term_text [OF a(1,2) assms(3), of now] by (simp add: s_def)
  have srt: "registrySorted (customElts s)" using assms(2) fr(3) by simp
  show ?thesis
    unfolding whole
    using name_term_lookup [OF inv assms(4) fr(2) fr(1) srt, of now]
    by (simp only: tx fr(3))
qed

lemma cstr_plain: "NUL \<notin> set xs \<Longrightarrow> cstr xs = xs"
  by (auto simp: cstr_def takeWhile_eq_all_conv)

text \<open>
  C8, as amended. When the name of a sentence, field 0, ends, the candidate pointer is set
  from the text that the 15-byte term buffer holds for the name: the first 14 characters
  of the name, up to its first NUL if it has one. The pointer becomes the position of the
  first registry entry whose name equals that text, and \<^verbatim>\<open>NULL\<close> exactly when no entry has
  that name, for every sorted registry, every parser state and every name made of
  characters other than \<open>$\<close> and the term terminators, recognized or not. For a name of at
  most 14 characters without NUL the text is the name itself, and the pointer is the
  first entry with the sentence name.
\<close>

theorem first_candidate_lookup:
  assumes "parserInv s0" and "registrySorted (customElts s0)"
    and "\<forall>x\<in>set name. ordinaryChar x" and "isTerminator c"
  shows "customCandidates (snd (encode now c (feed now (CHR ''$'' # name) s0)))
           = firstWithName (cstr (take 14 name)) (customElts s0)
       \<and> ((customCandidates (snd (encode now c (feed now (CHR ''$'' # name) s0))) = None)
            = (cstr (take 14 name) \<notin> sentenceName ` set (customElts s0)))
       \<and> (length name \<le> 14 \<and> NUL \<notin> set name \<longrightarrow>
            customCandidates (snd (encode now c (feed now (CHR ''$'' # name) s0)))
              = firstWithName name (customElts s0))"
  unfolding name_lookup_input [OF assms]
  by (simp add: firstWithName_None_iff cstr_plain)

theorem first_candidate_lookup_witness:
  "customCandidates (snd (encode 0 CHR '',''
      (feed 0 ''$GPGSA'' (registerAll [(''GPRMC'', 9), (''GPGSA'', 2), (''GPGSA'', 1)] (TinyGPSPlus_new [])))))
   = Some 0
   \<and> customCandidates (snd (encode 0 CHR '',''
      (feed 0 ''$GPGSV'' (registerAll [(''GPRMC'', 9), (''GPGSA'', 2), (''GPGSA'', 1)] (TinyGPSPlus_new [])))))
   = None"
proof -
  define s0 where "s0 = registerAll [(''GPRMC'', 9), (''GPGSA'', 2), (''GPGSA'', 1)] (TinyGPSPlus_new [])"
  have h1: "parserInv s0"
    unfolding s0_def
    by (simp add: TinyGPSCustom_begin_def parserInv_insertCustom parserInv_new)
  have h2: "registrySorted (customElts s0)"
    unfolding s0_def by (rule registrySorted_registerAll [OF registrySorted_new])
  have h3: "\<forall>x\<in>set ''GPGSA''. ordinaryChar x" "\<forall>x\<in>set ''GPGSV''. ordinaryChar x"
    by (simp_all add: ordinaryChar_def isTerminator_def CR_def LF_def)
  have h4: "isTerminator CHR '',''" by (simp add: isTerminator_def)
  have e: "map sentenceName (customElts s0) = [''GPGSA'', ''GPGSA'', ''GPRMC'']"
    unfolding s0_def by code_simp
  have f: "firstWithName (cstr (take 14 ''GPGSA'')) (customElts s0) = Some 0"
    "firstWithName (cstr (take 14 ''GPGSV'')) (customElts s0) = None"
    unfolding s0_def by code_simp+
  from first_candidate_lookup [OF h1 h2 h3(1) h4, of 0] first_candidate_lookup [OF h1 h2 h3(2) h4, of 0]
  show ?thesis
    unfolding s0_def [symmetric] by (simp only: f)
qed

text \<open>
  The claim as stated, for every sentence name, fails for a name of more than 14
  characters. The registry holds an entry with the 16-character name of the sentence and
  the pointer is \<^verbatim>\<open>NULL\<close>; an entry whose name is the first 14 characters of the sentence
  name, another name, becomes the candidate.
\<close>

theorem first_candidate_lookup_counterexample:
  "customCandidates (snd (encode 0 CHR '',''
      (feed 0 ''$ABCDEFGHIJKLMNOP'' (registerAll [(''ABCDEFGHIJKLMNOP'', 1)] (TinyGPSPlus_new [])))))
   = None
   \<and> firstWithName ''ABCDEFGHIJKLMNOP''
       (customElts (registerAll [(''ABCDEFGHIJKLMNOP'', 1)] (TinyGPSPlus_new []))) = Some 0
   \<and> customCandidates (snd (encode 0 CHR '',''
      (feed 0 ''$ABCDEFGHIJKLMNOP'' (registerAll [(''ABCDEFGHIJKLMN'', 1)] (TinyGPSPlus_new [])))))
   = Some 0"
  by code_simp


section \<open>The return value as a function of the input\<close>

lemma checksumOf_bytes:
  "a ! 0 = b ! 0 \<Longrightarrow> a ! 1 = b ! 1 \<Longrightarrow> checksumOf a = checksumOf b"
  by (simp add: checksumOf_def)

lemma checksum_field_bytes:
  assumes "length buf = 15" and "f \<noteq> []"
    and "take (min 14 (length f)) buf = take 14 f"
  shows "checksumOf (buf[min 14 (length f) := NUL]) = checksumOf (checksumBytes f)"
proof (rule checksumOf_bytes)
  obtain x g where f: "f = x # g" using assms(2) by (cases f) auto
  have pos: "0 < min 14 (length f)" using f by simp
  have "take (min 14 (length f)) buf ! 0 = take 14 f ! 0" using assms(3) by simp
  then have b0: "buf ! 0 = x" using pos f by simp
  show "buf[min 14 (length f) := NUL] ! 0 = checksumBytes f ! 0"
    using pos b0 f by (simp add: checksumBytes_def)
  show "buf[min 14 (length f) := NUL] ! 1 = checksumBytes f ! 1"
  proof (cases g)
    case Nil
    then show ?thesis using f assms(1) by (simp add: checksumBytes_def)
  next
    case (Cons y h)
    then have two: "1 < min 14 (length f)" using f by simp
    have "take (min 14 (length f)) buf ! 1 = take 14 f ! 1" using assms(3) by simp
    then have "buf ! 1 = y" using two f Cons by simp
    then show ?thesis using two f Cons by (simp add: checksumBytes_def)
  qed
qed

lemma fromHex_hexValue:
  assumes "hexValue a = Some v"
  shows "fromHex a = int v"
  using assms
  by (simp add: hexValue_def fromHex_def split: if_splits)

lemma checksumOf_hex:
  assumes "hexValue a = Some v" and "hexValue b = Some w"
  shows "checksumOf (checksumBytes (a # b # g)) = of_nat (16 * v + w)"
  by (simp add: checksumOf_def checksumBytes_def fromHex_hexValue [OF assms(1)]
      fromHex_hexValue [OF assms(2)])

text \<open>
  C2, as amended. On a parser as constructed, after any input, \<open>encode\<close> returns true only
  on a term terminator (\<open>,\<close> \<open>*\<close> CR LF) that ends a checksum field, a term that began
  after a \<open>*\<close>. When that field has at least one character, \<open>encode\<close> returns true exactly
  when the byte \<^verbatim>\<open>16 * fromHex(a) + fromHex(b)\<close> of its first two characters (\<open>b\<close> is NUL when
  the field has one character, and neither is checked to be a hex digit) equals the
  accumulator: the exclusive-or of the characters since the last \<open>$\<close> that are a \<open>,\<close>, the
  terminator of the checksum field included, or that are ordinary and stand outside a
  checksum field. When the field begins with two hex digits, that byte is the number
  they write. So \<open>encode\<close> returns false on every ordinary character, on \<open>$\<close>, on a
  terminator outside a checksum field and on a checksum field with a character that
  does not match.
\<close>

theorem encode_true_exactly:
  assumes "parserInv s0" and "parity s0 = 0" and "\<not> isChecksumTerm s0" and "curTermOffset s0 = 0"
  shows "(fst (encode now c (feed now cs s0)) \<longrightarrow>
            isTerminator c \<and> inChecksumField (sinceDollar cs))
       \<and> (currentField (sinceDollar cs) \<noteq> [] \<longrightarrow>
            fst (encode now c (feed now cs s0))
            = (isTerminator c \<and> inChecksumField (sinceDollar cs)
               \<and> checksumOf (checksumBytes (currentField (sinceDollar cs)))
                 = xorsum (coveredChars (sinceDollar cs @ [c]))))
       \<and> (currentField (sinceDollar cs) = a # b # g \<and> hexValue a = Some v \<and> hexValue b = Some w \<longrightarrow>
            fst (encode now c (feed now cs s0))
            = (isTerminator c \<and> inChecksumField (sinceDollar cs)
               \<and> of_nat (16 * v + w) = xorsum (coveredChars (sinceDollar cs @ [c]))))"
proof -
  define s where "s = feed now cs s0"
  define u where "u = sinceDollar cs"
  define f where "f = currentField u"
  have inv: "parserInv s" unfolding s_def by (rule parserInv_feed [OF assms(1)])
  then have off: "curTermOffset s < 15" and len: "length (term_buf s) = 15"
    by (simp_all add: parserInv_def)
  have st: "isChecksumTerm s = inChecksumField u" "parity s = xorsum (coveredChars u)"
    "curTermOffset s = min 14 (length f)"
    "take (min 14 (length f)) (term_buf s) = take 14 f"
    using input_state [OF assms, of now cs] by (simp_all add: s_def u_def f_def)
  have ret: "fst (encode now c s)
             = (isTerminator c \<and> inChecksumField u
                \<and> checksumOf ((term_buf s)[min 14 (length f) := NUL])
                  = (if c = CHR '','' then xorsum (coveredChars u) XOR of_char c
                     else xorsum (coveredChars u)))"
    by (simp add: encode_fst [OF off] st)
  have acc: "isTerminator c \<Longrightarrow>
             xorsum (coveredChars (u @ [c]))
             = (if c = CHR '','' then xorsum (coveredChars u) XOR of_char c
                else xorsum (coveredChars u))"
    by (simp add: coveredChars_snoc xorsum_append)
  have chk: "f \<noteq> [] \<Longrightarrow>
             checksumOf ((term_buf s)[min 14 (length f) := NUL]) = checksumOf (checksumBytes f)"
    by (rule checksum_field_bytes [OF len _ st(4)])
  have general: "f \<noteq> [] \<Longrightarrow>
            fst (encode now c s)
            = (isTerminator c \<and> inChecksumField u
               \<and> checksumOf (checksumBytes f) = xorsum (coveredChars (u @ [c])))"
    using ret acc chk by auto
  have hex: "f = a # b # g \<and> hexValue a = Some v \<and> hexValue b = Some w \<Longrightarrow>
            fst (encode now c s)
            = (isTerminator c \<and> inChecksumField u
               \<and> of_nat (16 * v + w) = xorsum (coveredChars (u @ [c])))"
  proof -
    assume h: "f = a # b # g \<and> hexValue a = Some v \<and> hexValue b = Some w"
    then have "f \<noteq> []" by simp
    from general [OF this] checksumOf_hex [of a v b w g] h show ?thesis by simp
  qed
  show ?thesis
    unfolding s_def [symmetric] u_def [symmetric] f_def [symmetric]
    using ret general hex by blast
qed

theorem encode_true_exactly_witness:
  "fst (encode 0 CR (feed 0 ''$GPRMC,1,A*3B'' (TinyGPSPlus_new [])))
   \<and> \<not> fst (encode 0 CR (feed 0 ''$GPRMC,1,A*3C'' (TinyGPSPlus_new [])))
   \<and> \<not> fst (encode 0 CHR ''B'' (feed 0 ''$GPRMC,1,A*3'' (TinyGPSPlus_new [])))"
proof -
  have h: "parserInv (TinyGPSPlus_new [])" "parity (TinyGPSPlus_new []) = 0"
    "\<not> isChecksumTerm (TinyGPSPlus_new [])" "curTermOffset (TinyGPSPlus_new []) = 0"
    by (simp_all add: parserInv_new) (simp_all add: TinyGPSPlus_new_def)
  have a: "currentField (sinceDollar ''$GPRMC,1,A*3B'') = CHR ''3'' # CHR ''B'' # []"
    "hexValue CHR ''3'' = Some 3" "hexValue CHR ''B'' = Some 11"
    "isTerminator CR" "inChecksumField (sinceDollar ''$GPRMC,1,A*3B'')"
    "(of_nat (16 * 3 + 11) :: 8 word) = xorsum (coveredChars (sinceDollar ''$GPRMC,1,A*3B'' @ [CR]))"
    by code_simp+
  have b: "currentField (sinceDollar ''$GPRMC,1,A*3C'') \<noteq> []"
    "checksumOf (checksumBytes (currentField (sinceDollar ''$GPRMC,1,A*3C'')))
     \<noteq> xorsum (coveredChars (sinceDollar ''$GPRMC,1,A*3C'' @ [CR]))"
    by code_simp+
  have c: "\<not> isTerminator CHR ''B''"
    by (simp add: isTerminator_def CR_def LF_def)
  from encode_true_exactly [OF h, where cs = "''$GPRMC,1,A*3B''" and a = "CHR ''3''"
        and b = "CHR ''B''" and g = "[]" and v = 3 and w = 11 and now = 0 and c = CR]
    encode_true_exactly [OF h, where cs = "''$GPRMC,1,A*3C''" and now = 0 and c = CR]
    encode_true_exactly [OF h, where cs = "''$GPRMC,1,A*3''" and now = 0 and c = "CHR ''B''"]
  show ?thesis using a b c by blast
qed

text \<open>
  The claim as stated fails, because the checksum field is not required to be two hex
  digits. After \<open>$0;*\<close> the checksum field is empty, the comparison reads the NUL that ends
  it and the \<open>;\<close> that the term before left in the buffer, and CR makes \<open>encode\<close> return
  true. After \<open>$A*2Q\<close> it returns true as well: \<open>16 * 2 + ('Q' - '0')\<close> is 65, the code
  of \<open>A\<close>.
\<close>

theorem encode_true_exactly_counterexample:
  "fst (encode 0 CR (feed 0 ''$0;*'' (TinyGPSPlus_new [])))
   \<and> currentField (sinceDollar ''$0;*'') = []
   \<and> fst (encode 0 CR (feed 0 ''$A*2Q'' (TinyGPSPlus_new [])))
   \<and> hexValue CHR ''Q'' = None"
  by code_simp

section \<open>The fix flag and the fields of a sentence\<close>

lemma or_32_34_only:
  fixes i :: nat
  assumes h: "32 OR i = 34"
  shows "i = 2 \<or> i = 34"
proof -
  have "take_bit 5 (32 OR i) = take_bit 5 (34::nat)" using h by simp
  then have "take_bit 5 (32::nat) OR take_bit 5 i = take_bit 5 (34::nat)"
    by (simp only: take_bit_or)
  moreover have "take_bit 5 (32::nat) = 0" "take_bit 5 (34::nat) = 2"
    by (simp_all add: take_bit_eq_mod)
  ultimately have lo: "i mod 32 = 2" by (simp add: take_bit_eq_mod)
  have "drop_bit 5 (32 OR i) = drop_bit 5 (34::nat)" using h by simp
  then have "drop_bit 5 (32::nat) OR drop_bit 5 i = drop_bit 5 (34::nat)"
    by (simp only: drop_bit_or)
  moreover have "drop_bit 5 (32::nat) = 1" "drop_bit 5 (34::nat) = 1"
    by (simp_all add: drop_bit_eq_div)
  ultimately have "1 OR (i div 32) = 1" by (simp add: drop_bit_eq_div)
  then have "i div 32 + of_bool (even (i div 32)) = (1::nat)" by (simp only: one_or_eq)
  then have hi: "i div 32 = 0 \<or> i div 32 = 1" by (cases "even (i div 32)") auto
  have "i = 32 * (i div 32) + i mod 32" by simp
  then show "i = 2 \<or> i = 34" using lo hi by arith
qed

lemma or_32_34:
  fixes i :: nat
  shows "(32 OR i = 34) = (i = 2 \<or> i = 34)"
proof
  assume "32 OR i = 34"
  then show "i = 2 \<or> i = 34" by (rule or_32_34_only)
next
  assume "i = 2 \<or> i = 34"
  then show "32 OR i = 34"
  proof
    assume "i = 2" then show ?thesis by simp
  next
    assume "i = 34" then show ?thesis by simp
  qed
qed

lemma or_32_low:
  fixes i :: nat
  assumes "k < 32"
  shows "32 OR i \<noteq> k"
proof
  assume h: "32 OR i = k"
  have "drop_bit 5 (32 OR i) = drop_bit 5 k" using h by simp
  then have "drop_bit 5 (32::nat) OR drop_bit 5 i = drop_bit 5 k"
    by (simp only: drop_bit_or)
  moreover have "drop_bit 5 (32::nat) = 1" "drop_bit 5 k = 0"
    using assms by (simp_all add: drop_bit_eq_div)
  ultimately have "1 OR (i div 32) = 0" by (simp add: drop_bit_eq_div)
  then have "i div 32 + of_bool (even (i div 32)) = (0::nat)" by (simp only: one_or_eq)
  then show False by (cases "even (i div 32)") auto
qed

text \<open>The cases of the \<^verbatim>\<open>switch\<close> that assign the fix flag.\<close>

lemma dispatchTerm_fix:
  "sentenceHasFix (dispatchTerm s)
   = (if COMBINE (sentence_code (curSentenceType s)) (unat (curTermNumber s)) = 34
      then term_buf s ! 0 = CHR ''A''
      else if COMBINE (sentence_code (curSentenceType s)) (unat (curTermNumber s)) = 6
      then char_value (term_buf s ! 0) > char_value CHR ''0''
      else sentenceHasFix s)"
proof -
  define k where "k = COMBINE (sentence_code (curSentenceType s)) (unat (curTermNumber s))"
  have c: "COMBINE (sentence_code GPS_SENTENCE_GPRMC) 1 = 33"
    "COMBINE (sentence_code GPS_SENTENCE_GPRMC) 2 = 34"
    "COMBINE (sentence_code GPS_SENTENCE_GPRMC) 3 = 35"
    "COMBINE (sentence_code GPS_SENTENCE_GPRMC) 4 = 36"
    "COMBINE (sentence_code GPS_SENTENCE_GPRMC) 5 = 37"
    "COMBINE (sentence_code GPS_SENTENCE_GPRMC) 6 = 38"
    "COMBINE (sentence_code GPS_SENTENCE_GPRMC) 7 = 39"
    "COMBINE (sentence_code GPS_SENTENCE_GPRMC) 8 = 40"
    "COMBINE (sentence_code GPS_SENTENCE_GPRMC) 9 = 41"
    "\<And>n. COMBINE (sentence_code GPS_SENTENCE_GPGGA) n = n"
    by (simp_all add: COMBINE_def)
  show ?thesis
    unfolding k_def [symmetric] dispatchTerm_def Let_def k_def [symmetric] c
    by simp
qed

lemma dispatchTerm_fix_kind:
  assumes "curSentenceType s \<noteq> GPS_SENTENCE_OTHER"
  shows "sentenceHasFix (dispatchTerm s)
   = (if curSentenceType s = GPS_SENTENCE_GPRMC
      then (if unat (curTermNumber s) = 2 \<or> unat (curTermNumber s) = 34
            then term_buf s ! 0 = CHR ''A'' else sentenceHasFix s)
      else (if unat (curTermNumber s) = 34 then term_buf s ! 0 = CHR ''A''
            else if unat (curTermNumber s) = 6
            then char_value (term_buf s ! 0) > char_value CHR ''0''
            else sentenceHasFix s))"
proof (cases "curSentenceType s")
  case GPS_SENTENCE_GPGGA
  then show ?thesis by (simp add: dispatchTerm_fix COMBINE_def)
next
  case GPS_SENTENCE_GPRMC
  have k: "COMBINE (sentence_code (curSentenceType s)) (unat (curTermNumber s))
           = 32 OR unat (curTermNumber s)"
    by (simp add: GPS_SENTENCE_GPRMC COMBINE_def)
  have six: "32 OR unat (curTermNumber s) \<noteq> 6" by (rule or_32_low) simp
  show ?thesis
    unfolding dispatchTerm_fix k by (simp add: GPS_SENTENCE_GPRMC or_32_34 six)
next
  case GPS_SENTENCE_OTHER
  then show ?thesis using assms by simp
qed

lemma handler_data_fix:
  assumes "\<not> isChecksumTerm s" and "curTermNumber s \<noteq> 0"
  shows "sentenceHasFix (snd (endOfTermHandler now s))
         = (if curSentenceType s \<noteq> GPS_SENTENCE_OTHER \<and> term_buf s ! 0 \<noteq> NUL
            then sentenceHasFix (dispatchTerm s) else sentenceHasFix s)"
    and "curSentenceType (snd (endOfTermHandler now s)) = curSentenceType s"
  using assms by (simp_all add: endOfTermHandler_def Let_def)

lemma handler_name_fix:
  assumes "\<not> isChecksumTerm s" and "curTermNumber s = 0"
  shows "sentenceHasFix (snd (endOfTermHandler now s)) = sentenceHasFix s"
  using assms by (simp add: endOfTermHandler_def Let_def)

lemma field_step:
  assumes "parserInv s" and "\<not> isChecksumTerm s" and "curTermOffset s = 0"
    and "curTermNumber s \<noteq> 0" and "curSentenceType s \<noteq> GPS_SENTENCE_OTHER"
    and "\<forall>x\<in>set f. ordinaryChar x" and "isTerminator d"
  shows "sentenceHasFix (snd (encode now d (feed now f s)))
         = (if fieldHead f = NUL then sentenceHasFix s
            else if curSentenceType s = GPS_SENTENCE_GPRMC
            then (if unat (curTermNumber s) = 2 \<or> unat (curTermNumber s) = 34
                  then fieldHead f = CHR ''A'' else sentenceHasFix s)
            else (if unat (curTermNumber s) = 34 then fieldHead f = CHR ''A''
                  else if unat (curTermNumber s) = 6
                  then char_value (fieldHead f) > char_value CHR ''0''
                  else sentenceHasFix s))"
    and "curSentenceType (snd (encode now d (feed now f s))) = curSentenceType s"
    and "curTermNumber (snd (encode now d (feed now f s))) = curTermNumber s + 1"
    and "curTermOffset (snd (encode now d (feed now f s))) = 0"
    and "isChecksumTerm (snd (encode now d (feed now f s))) = (d = CHR ''*'')"
proof -
  define r where "r = feed now f s"
  define b where "b = beforeHandler d r"
  have inv: "parserInv r" unfolding r_def by (rule parserInv_feed [OF assms(1)])
  then have off: "curTermOffset r < 15" by (simp add: parserInv_def)
  have r: "curTermNumber r = curTermNumber s" "isChecksumTerm r = isChecksumTerm s"
    "curSentenceType r = curSentenceType s" "sentenceHasFix r = sentenceHasFix s"
    unfolding r_def by (rule feed_term_frame [OF assms(6)])+
  have head: "term_buf b ! 0 = fieldHead f"
    using terminated_term_text(2) [OF assms(1,3,6), of now]
    by (simp add: b_def r_def fieldHead_def)
  have b: "curTermNumber b = curTermNumber s" "\<not> isChecksumTerm b"
    "curSentenceType b = curSentenceType s" "sentenceHasFix b = sentenceHasFix s"
    using r assms(2) by (simp_all add: b_def)
  have nz: "curTermNumber b \<noteq> 0" and kind: "curSentenceType b \<noteq> GPS_SENTENCE_OTHER"
    using assms(4,5) b by simp_all
  note h = handler_data_fix [OF b(2) nz, of now]
  have e: "sentenceHasFix (snd (encode now d r)) = sentenceHasFix (snd (endOfTermHandler now b))"
    "curSentenceType (snd (encode now d r)) = curSentenceType (snd (endOfTermHandler now b))"
    by (simp_all add: encode_terminator [OF assms(7) off] b_def)
  show "sentenceHasFix (snd (encode now d (feed now f s)))
         = (if fieldHead f = NUL then sentenceHasFix s
            else if curSentenceType s = GPS_SENTENCE_GPRMC
            then (if unat (curTermNumber s) = 2 \<or> unat (curTermNumber s) = 34
                  then fieldHead f = CHR ''A'' else sentenceHasFix s)
            else (if unat (curTermNumber s) = 34 then fieldHead f = CHR ''A''
                  else if unat (curTermNumber s) = 6
                  then char_value (fieldHead f) > char_value CHR ''0''
                  else sentenceHasFix s))"
    unfolding r_def [symmetric] e(1) h(1) dispatchTerm_fix_kind [OF kind] head b
    using assms(5) by simp
  show "curSentenceType (snd (encode now d (feed now f s))) = curSentenceType s"
    unfolding r_def [symmetric] e(2) h(2) b by simp
  show "curTermNumber (snd (encode now d (feed now f s))) = curTermNumber s + 1"
    and "curTermOffset (snd (encode now d (feed now f s))) = 0"
    and "isChecksumTerm (snd (encode now d (feed now f s))) = (d = CHR ''*'')"
    unfolding r_def [symmetric]
    by (simp_all add: encode_terminator_frame [OF assms(7) off] r)
qed

text \<open>The fix that the fields indicate, one field after the other.\<close>

lemma indicatesFix_snoc:
  assumes "length fl = i"
  shows "indicatesFix name (fl @ [f])
         = (if fieldHead f = NUL then indicatesFix name fl
            else if isRMCName name
            then (if i = 2 \<or> i = 34 then fieldHead f = CHR ''A'' else indicatesFix name fl)
            else (if i = 34 then fieldHead f = CHR ''A''
                  else if i = 6 then char_value (fieldHead f) > char_value CHR ''0''
                  else indicatesFix name fl))"
proof -
  have nul: "\<not> char_value NUL > char_value CHR ''0''" "NUL \<noteq> CHR ''A''"
    by (simp_all add: char_value_def NUL_def)
  consider "i < 2" | "i = 2" | "2 < i \<and> i < 6" | "i = 6" | "6 < i \<and> i < 34" | "i = 34" | "34 < i"
    by linarith
  then show ?thesis
  proof cases
    case 1
    then show ?thesis using assms by (simp add: indicatesFix_def fixField_def)
  next
    case 2
    then show ?thesis using assms nul
      by (auto simp: indicatesFix_def fixField_def fixTest_def nth_append)
  next
    case 3
    then show ?thesis using assms nul
      by (auto simp: indicatesFix_def fixField_def fixTest_def nth_append)
  next
    case 4
    then show ?thesis using assms nul
      by (auto simp: indicatesFix_def fixField_def fixTest_def nth_append)
  next
    case 5
    then show ?thesis using assms nul
      by (auto simp: indicatesFix_def fixField_def fixTest_def nth_append)
  next
    case 6
    then show ?thesis using assms nul
      by (auto simp: indicatesFix_def fixField_def fixTest_def nth_append)
  next
    case 7
    then show ?thesis using assms nul
      by (auto simp: indicatesFix_def fixField_def fixTest_def nth_append)
  qed
qed

lemma fieldsText_simps [simp]:
  "fieldsText [] = []"
  "fieldsText (fs @ [f]) = fieldsText fs @ CHR '','' # f"
  by (simp_all add: fieldsText_def)

lemma fields_state:
  assumes inv: "parserInv s0"
    and kind: "isRMCName name \<or> isGGAName name"
    and chars: "\<forall>f\<in>set fs. \<forall>c\<in>set f. ordinaryChar c"
    and count: "length fs \<le> 255"
    and d: "isTerminator d"
  shows "sentenceHasFix (feed now (CHR ''$'' # name @ fieldsText fs @ [d]) s0)
           = indicatesFix name (name # fs)
       \<and> curTermNumber (feed now (CHR ''$'' # name @ fieldsText fs @ [d]) s0)
           = of_nat (Suc (length fs))
       \<and> curSentenceType (feed now (CHR ''$'' # name @ fieldsText fs @ [d]) s0)
           = (if isRMCName name then GPS_SENTENCE_GPRMC else GPS_SENTENCE_GPGGA)
       \<and> curTermOffset (feed now (CHR ''$'' # name @ fieldsText fs @ [d]) s0) = 0
       \<and> isChecksumTerm (feed now (CHR ''$'' # name @ fieldsText fs @ [d]) s0) = (d = CHR ''*'')"
  using chars count d
proof (induction fs arbitrary: d rule: rev_induct)
  case Nil
  define a where "a = snd (encode now CHR ''$'' s0)"
  define r where "r = feed now name a"
  have whole: "feed now (CHR ''$'' # name @ fieldsText [] @ [d]) s0 = snd (encode now d r)"
    by (simp add: feed_append a_def r_def)
  have inv_a: "parserInv a" unfolding a_def by (rule parserInv_encode [OF inv])
  have a: "\<not> isChecksumTerm a" "curTermNumber a = 0" "curTermOffset a = 0" "\<not> sentenceHasFix a"
    by (simp_all add: a_def encode_dollar)
  have inv_r: "parserInv r" unfolding r_def by (rule parserInv_feed [OF inv_a])
  then have off: "curTermOffset r < 15" by (simp add: parserInv_def)
  note ord = recognized_name_chars(1) [OF kind]
  have r: "curTermNumber r = 0" "\<not> isChecksumTerm r" "\<not> sentenceHasFix r"
    using feed_term_frame [OF ord, of now a] a by (simp_all add: r_def)
  have fix0: "\<not> sentenceHasFix (snd (encode now d r))"
    using handler_name_fix [of "beforeHandler d r" now] r
    by (simp add: encode_terminator [OF Nil.prems(3) off])
  have none: "\<not> indicatesFix name [name]"
    by (simp add: indicatesFix_def fixField_def)
  note nt = name_term [OF inv_a a(1,2,3) kind Nil.prems(3), of now]
  show ?case
    unfolding whole
    using fix0 none nt
    by (simp add: r_def [symmetric] encode_terminator_frame [OF Nil.prems(3) off])
next
  case (snoc f fs)
  define p where "p = feed now (CHR ''$'' # name @ fieldsText fs @ [CHR '','']) s0"
  define K where "K = (if isRMCName name then GPS_SENTENCE_GPRMC else GPS_SENTENCE_GPGGA)"
  have whole: "feed now (CHR ''$'' # name @ fieldsText (fs @ [f]) @ [d]) s0
               = snd (encode now d (feed now f p))"
    by (simp add: feed_append p_def)
  have chars': "\<forall>f\<in>set fs. \<forall>c\<in>set f. ordinaryChar c" and f: "\<forall>c\<in>set f. ordinaryChar c"
    using snoc.prems(1) by simp_all
  have count': "length fs \<le> 255" and small: "Suc (length fs) < 256" using snoc.prems(2) by simp_all
  have comma: "isTerminator CHR '',''" by (simp add: isTerminator_def)
  have p: "sentenceHasFix p = indicatesFix name (name # fs)"
    "curTermNumber p = of_nat (Suc (length fs))" "curSentenceType p = K"
    "curTermOffset p = 0" "\<not> isChecksumTerm p"
    using snoc.IH [OF chars' count' comma] by (simp_all add: p_def K_def)
  have inv_p: "parserInv p" unfolding p_def by (rule parserInv_feed [OF inv])
  have num: "unat (curTermNumber p) = Suc (length fs)"
    unfolding p(2) using small by (simp only: unat_of_nat) simp
  then have nz: "curTermNumber p \<noteq> 0" by (metis unat_0 nat.distinct(1))
  have Kk: "K \<noteq> GPS_SENTENCE_OTHER" "(K = GPS_SENTENCE_GPRMC) = isRMCName name"
    by (simp_all add: K_def)
  have kind_p: "curSentenceType p \<noteq> GPS_SENTENCE_OTHER" using p(3) Kk(1) by simp
  note st = field_step [OF inv_p p(5) p(4) nz kind_p f snoc.prems(3), of now]
  have len: "length (name # fs) = Suc (length fs)" by simp
  have spec: "indicatesFix name (name # fs @ [f])
         = (if fieldHead f = NUL then indicatesFix name (name # fs)
            else if isRMCName name
            then (if Suc (length fs) = 2 \<or> Suc (length fs) = 34 then fieldHead f = CHR ''A''
                  else indicatesFix name (name # fs))
            else (if Suc (length fs) = 34 then fieldHead f = CHR ''A''
                  else if Suc (length fs) = 6 then char_value (fieldHead f) > char_value CHR ''0''
                  else indicatesFix name (name # fs)))"
    using indicatesFix_snoc [OF len, of name f] by simp
  have fx: "sentenceHasFix (snd (encode now d (feed now f p))) = indicatesFix name (name # fs @ [f])"
    unfolding st(1) spec p(1) p(3) Kk(2) num by (rule refl)
  have nm: "curTermNumber (snd (encode now d (feed now f p))) = of_nat (Suc (length (fs @ [f])))"
    unfolding st(3) p(2) by simp
  show ?case
    unfolding whole K_def [symmetric]
    using fx nm st(2,4,5) p(3) by simp
qed

section \<open>The commits of a sentence, by its fields\<close>

lemma fieldsText_Cons: "fieldsText (f # fs) = CHR '','' # f @ fieldsText fs"
  by (simp add: fieldsText_def)

lemma fieldsText_shape:
  assumes "\<forall>f\<in>set fs. \<forall>c\<in>set f. ordinaryChar c"
  shows "fieldsText fs = [] \<or> hd (fieldsText fs) = CHR '',''"
    and "\<forall>c\<in>set (fieldsText fs). c = CHR '','' \<or> ordinaryChar c"
    and "length (filter (\<lambda>c. c = CHR '','') (fieldsText fs)) = length fs"
proof -
  show "fieldsText fs = [] \<or> hd (fieldsText fs) = CHR '',''"
    by (cases fs) (simp_all add: fieldsText_Cons)
  show "\<forall>c\<in>set (fieldsText fs). c = CHR '','' \<or> ordinaryChar c"
    using assms by (auto simp: fieldsText_def)
  show "length (filter (\<lambda>c. c = CHR '','') (fieldsText fs)) = length fs"
    using assms
  proof (induction fs)
    case Nil
    then show ?case by simp
  next
    case (Cons f fs)
    have "\<forall>c\<in>set f. c \<noteq> CHR '',''"
      using Cons.prems by (auto simp: ordinaryChar_def isTerminator_def)
    then have "filter (\<lambda>c. c = CHR '','') f = []" by (simp add: filter_empty_conv)
    then show ?case using Cons by (simp add: fieldsText_Cons)
  qed
qed




end
